theory Spec2Isabelle
  imports Main "HOL-Library.Sublist"
begin

section \<open>Data model (include/app.h)\<close>

text \<open>
  A piece as \<^verbatim>\<open>typedef struct { int row; int col; char color; char type; } Piece\<close>.
  The two \<^verbatim>\<open>char\<close> fields stay characters: \<^verbatim>\<open>'B'\<close>/\<^verbatim>\<open>'R'\<close> for the colour,
  \<^verbatim>\<open>'K'\<close>/\<^verbatim>\<open>'P'\<close> for the kind. The code only ever compares them with \<^verbatim>\<open>'B'\<close> and
  \<^verbatim>\<open>'K'\<close>, and the model keeps these comparisons as they are written.
\<close>

record Piece =
  row :: int
  col :: int
  color :: char
  type :: char

text \<open>
  The C \<^verbatim>\<open>int\<close> is 32 bits wide. Coordinates can be arbitrary (the tests store huge and
  negative values in them), so every addition on a coordinate is written with the
  two's-complement wrap-around of the target. Indices and counters stay far from the limits
  and are natural numbers.
\<close>

definition wrap32 :: "int \<Rightarrow> int" where
  "wrap32 x = (x + 2147483648) mod 4294967296 - 2147483648"

text \<open>
  The five literal reason texts passed to \<^verbatim>\<open>set_victory_message\<close> in capture.c and net.c
  (the French texts contain accented letters, so each literal is a constructor):
  "Le roi bleu a ete capture.", "Le roi rouge a ete capture.",
  "Les bleus n'ont plus qu'un pion et un roi.", "Les rouges n'ont plus qu'un pion et un roi.",
  "L'adversaire a joue un coup invalide.".
\<close>

datatype reason =
  Blue_King_Captured
| Red_King_Captured
| Blue_Pawn_And_King
| Red_Pawn_And_King
| Invalid_Peer_Move

text \<open>The two system calls that net.c issues on \<^verbatim>\<open>g_socket\<close> when it tears the link down.\<close>

datatype sock_call = Shutdown int | Close int

text \<open>
  The global variables of the program that capture.c and net.c read or write.
  \<^verbatim>\<open>pieces\<close> is the array \<^verbatim>\<open>Piece pieces[20]\<close> (its capacity is the length of the list),
  of which the first \<^verbatim>\<open>piece_count\<close> slots are live. \<^verbatim>\<open>cell_control\<close> is \<^verbatim>\<open>int[9][9]\<close>,
  a list of rows. \<^verbatim>\<open>set_victory_message\<close> (status.c) renders into GTK labels; the model
  records every call in order, with its \<^verbatim>\<open>blue_won\<close> flag and its reason.
\<close>

record game =
  pieces :: "Piece list"
  piece_count :: nat
  cell_control :: "int list list"
  selected_piece :: int
  game_over :: int
  score_blue :: int
  score_red :: int
  pieces_blue :: int
  pieces_red :: int
  current_turn :: char
  my_color :: char
  g_socket :: int
  victory_calls :: "(bool \<times> reason) list"
  socket_calls :: "sock_call list"

definition live :: "game \<Rightarrow> Piece list" where
  "live s = take (piece_count s) (pieces s)"

text \<open>
  \<^verbatim>\<open>set_victory_message(blue_won, reason)\<close> of status.c writes the winner's banner into
  GTK widgets (and does nothing when no label is registered, as in the tests). What the
  rule engine decides is the call and its arguments, so the model takes the call itself as
  the observable effect and appends it to \<open>victory_calls\<close>.
\<close>

definition set_victory_message :: "bool \<Rightarrow> reason \<Rightarrow> game \<Rightarrow> game" where
  "set_victory_message blue_won why s = s\<lparr>victory_calls := victory_calls s @ [(blue_won, why)]\<rparr>"

section \<open>Helpers of game.c\<close>

text \<open>
  Modelled from the spec: \<^verbatim>\<open>find_piece_at\<close> is defined in game.c, which is not among the
  sources; capture.c, net.c and the tests use its result as the index in \<^verbatim>\<open>pieces\<close> of the
  live piece standing on the cell, negative (\<^verbatim>\<open>-1\<close>) when the cell holds no live piece.
  The model scans the live slots upwards and returns the first hit; \<open>None\<close> is the
  negative result.
\<close>

fun find_piece_in :: "Piece list \<Rightarrow> int \<Rightarrow> int \<Rightarrow> nat option" where
  "find_piece_in [] r c = None"
| "find_piece_in (p # ps) r c =
     (if row p = r \<and> col p = c then Some 0 else map_option Suc (find_piece_in ps r c))"

text \<open>
  Modelled from the spec: \<^verbatim>\<open>find_piece_at(row, col)\<close> itself, the scan above applied to the
  live slots of the global array.
\<close>

definition find_piece_at :: "game \<Rightarrow> int \<Rightarrow> int \<Rightarrow> nat option" where
  "find_piece_at s r c = find_piece_in (live s) r c"

text \<open>
  Modelled from the spec: the number of cells of the grid whose control value is \<open>v\<close>, the
  "cells controlled" term of a score.
\<close>

definition controlled :: "int list list \<Rightarrow> int \<Rightarrow> int" where
  "controlled cc v = int (length (filter (\<lambda>x. x = v) (concat cc)))"

text \<open>
  Modelled from the spec: \<^verbatim>\<open>update_scores\<close> is defined in game.c, which is not among the
  sources. The spec gives the score of a colour as the cells it controls plus its surviving
  soldiers, and keeps the pieces remaining per colour; app.h gives control value 1 to Blue
  and 2 to Red. It writes the four score variables only.
\<close>

definition update_scores :: "game \<Rightarrow> game" where
  "update_scores s =
     s\<lparr>score_blue := controlled (cell_control s) 1 +
          int (length (filter (\<lambda>p. color p = CHR ''B'' \<and> type p \<noteq> CHR ''K'') (live s))),
        score_red := controlled (cell_control s) 2 +
          int (length (filter (\<lambda>p. color p \<noteq> CHR ''B'' \<and> type p \<noteq> CHR ''K'') (live s))),
        pieces_blue := int (length (filter (\<lambda>p. color p = CHR ''B'') (live s))),
        pieces_red := int (length (filter (\<lambda>p. color p \<noteq> CHR ''B'') (live s)))\<rparr>"

section \<open>capture.c\<close>

text \<open>
  The removal loop that capture.c writes out four times:
  \<^verbatim>\<open>for (int k = idx; k < piece_count - 1; ++k) pieces[k] = pieces[k+1]; --piece_count;\<close>
\<close>

function shift_down :: "Piece list \<Rightarrow> nat \<Rightarrow> nat \<Rightarrow> Piece list" where
  "shift_down ps k n = (if k + 1 < n then shift_down (ps[k := ps ! (k + 1)]) (k + 1) n else ps)"
  by pat_completeness auto
termination
  by (relation "measure (\<lambda>(ps, k, n). n - k)") auto

declare shift_down.simps [simp del]

definition remove_piece :: "nat \<Rightarrow> game \<Rightarrow> game" where
  "remove_piece idx s =
     s\<lparr>pieces := shift_down (pieces s) idx (piece_count s), piece_count := piece_count s - 1\<rparr>"

text \<open>\<^verbatim>\<open>cell_control[r][c] = v\<close>, for indices the caller has checked.\<close>

definition set_cell :: "int list list \<Rightarrow> int \<Rightarrow> int \<Rightarrow> int \<Rightarrow> int list list" where
  "set_cell cc r c v = cc[nat r := (cc ! nat r)[nat c := v]]"

definition enemy_of :: "char \<Rightarrow> char" where
  "enemy_of ally = (if ally = CHR ''B'' then CHR ''R'' else CHR ''B'')"

text \<open>
  The King branch shared by both capture rules: the victory message goes to the side that
  is not the captured King's, the King leaves the array, the game is over.
\<close>

definition capture_king :: "nat \<Rightarrow> game \<Rightarrow> game" where
  "capture_king idx s =
     (let blue_king_captured = (color (pieces s ! idx) = CHR ''B'');
          s1 = set_victory_message (\<not> blue_king_captured)
                 (if blue_king_captured then Blue_King_Captured else Red_King_Captured) s;
          s2 = remove_piece idx s1
      in s2\<lparr>game_over := 1\<rparr>)"

definition dr :: "int list" where "dr = [-1, 1, 0, 0]"
definition dc :: "int list" where "dc = [0, 0, -1, 1]"

text \<open>The soldier branch of the sandwich rule (lines 70 to 75).\<close>

definition linca_take :: "nat \<Rightarrow> int \<Rightarrow> int \<Rightarrow> game \<Rightarrow> game" where
  "linca_take idx1 r1 c1 s =
     (let s1 = (if 0 \<le> r1 \<and> r1 < 9 \<and> 0 \<le> c1 \<and> c1 < 9
                then s\<lparr>cell_control := set_cell (cell_control s) r1 c1 0\<rparr> else s);
          s2 = remove_piece idx1 s1
      in if selected_piece s2 > int idx1 then s2\<lparr>selected_piece := selected_piece s2 - 1\<rparr> else s2)"


text \<open>
  The test of lines 49 to 54 for direction \<open>d\<close>: the distance-2 cell lies on the board, the
  adjacent cell holds a piece of the enemy colour and the distance-2 cell a piece of the
  mover's colour. The result is the index \<^verbatim>\<open>idx1\<close> of the flanked piece.
\<close>

definition linca_hit :: "game \<Rightarrow> int \<Rightarrow> int \<Rightarrow> char \<Rightarrow> char \<Rightarrow> nat \<Rightarrow> nat option" where
  "linca_hit s r c ally enemy d =
     (let r1 = wrap32 (r + dr ! d); c1 = wrap32 (c + dc ! d);
          r2 = wrap32 (r + 2 * dr ! d); c2 = wrap32 (c + 2 * dc ! d)
      in if r2 < 0 \<or> r2 > 8 \<or> c2 < 0 \<or> c2 > 8 then None
         else (case find_piece_at s r1 c1 of
                 None \<Rightarrow> None
               | Some idx1 \<Rightarrow>
                   (case find_piece_at s r2 c2 of
                      None \<Rightarrow> None
                    | Some idx2 \<Rightarrow>
                        if color (pieces s ! idx1) = enemy \<and> color (pieces s ! idx2) = ally
                        then Some idx1 else None)))"

lemma find_piece_in_bound: "find_piece_in ps r c = Some i \<Longrightarrow> i < length ps"
  by (induction ps arbitrary: i) (auto split: if_splits)

lemma find_piece_at_bound: "find_piece_at s r c = Some i \<Longrightarrow> i < piece_count s"
  using find_piece_in_bound [of "live s" r c i] by (simp add: find_piece_at_def live_def)

lemma linca_hit_bound: "linca_hit s r c ally enemy d = Some i \<Longrightarrow> i < piece_count s"
  by (auto simp: linca_hit_def Let_def find_piece_at_bound split: if_splits option.splits)

lemma piece_count_linca_take [simp]:
  "piece_count (linca_take idx1 r1 c1 s) = piece_count s - 1"
  by (simp add: linca_take_def remove_piece_def Let_def)

text \<open>
  The direction loop of \<^verbatim>\<open>check_linca_capture\<close>: \<^verbatim>\<open>continue\<close> goes to \<open>d + 1\<close>, the
  assignment \<^verbatim>\<open>d = -1\<close> after a soldier capture restarts at 0, the King branch returns.
\<close>

function linca_scan :: "game \<Rightarrow> int \<Rightarrow> int \<Rightarrow> char \<Rightarrow> char \<Rightarrow> nat \<Rightarrow> game" where
  "linca_scan s r c ally enemy d =
     (if d < 4 then
        (case linca_hit s r c ally enemy d of
           None \<Rightarrow> linca_scan s r c ally enemy (d + 1)
         | Some idx1 \<Rightarrow>
             if type (pieces s ! idx1) = CHR ''K'' then capture_king idx1 s
             else linca_scan (linca_take idx1 (wrap32 (r + dr ! d)) (wrap32 (c + dc ! d)) s)
                    r c ally enemy 0)
      else s)"
  by pat_completeness auto
termination
proof (relation "measures [\<lambda>(s, r, c, ally, enemy, d). piece_count s,
                           \<lambda>(s, r, c, ally, enemy, d). 4 - d]", goal_cases)
  case 1
  show ?case by simp
next
  case (2 s r c ally enemy d)
  then show ?case by simp
next
  case (3 s r c ally enemy d idx1)
  then have "idx1 < piece_count s" by (simp add: linca_hit_bound)
  then show ?case by simp
qed

declare linca_scan.simps [simp del]

definition check_linca_capture :: "nat \<Rightarrow> game \<Rightarrow> game" where
  "check_linca_capture moved_index s =
     (let moved = pieces s ! moved_index;
          r = row moved; c = col moved;
          ally = color moved;
          enemy = enemy_of ally
      in linca_scan s r c ally enemy 0)"

text \<open>The tally loop and the two tests of \<^verbatim>\<open>check_auto_defeat\<close>.\<close>

fun tally :: "Piece list \<Rightarrow> nat \<times> nat \<times> nat \<times> nat \<Rightarrow> nat \<times> nat \<times> nat \<times> nat" where
  "tally [] acc = acc"
| "tally (p # ps) (blue_count, blue_king, red_count, red_king) =
     (if color p = CHR ''B'' then
        (if type p = CHR ''K'' then tally ps (blue_count, blue_king + 1, red_count, red_king)
         else tally ps (blue_count + 1, blue_king, red_count, red_king))
      else
        (if type p = CHR ''K'' then tally ps (blue_count, blue_king, red_count, red_king + 1)
         else tally ps (blue_count, blue_king, red_count + 1, red_king)))"

definition check_auto_defeat :: "game \<Rightarrow> game" where
  "check_auto_defeat s =
     (case tally (live s) (0, 0, 0, 0) of
        (blue_count, blue_king, red_count, red_king) \<Rightarrow>
          (let s1 = (if game_over s = 0 \<and> blue_count = 1 \<and> blue_king = 1
                     then (set_victory_message False Blue_Pawn_And_King s)\<lparr>game_over := 1\<rparr>
                     else s)
           in if game_over s1 = 0 \<and> red_count = 1 \<and> red_king = 1
              then (set_victory_message True Red_Pawn_And_King s1)\<lparr>game_over := 1\<rparr>
              else s1))"

text \<open>
  The soldier branch of the flank rule (lines 132 to 140). The write to \<^verbatim>\<open>cell_control\<close>
  has no test of its own here: the model returns \<open>None\<close> if it is ever reached with an
  index outside \<^verbatim>\<open>0..8\<close>, and \<open>Some\<close> of the final state otherwise.
\<close>

definition seltou_take :: "nat \<Rightarrow> int \<Rightarrow> int \<Rightarrow> game \<Rightarrow> game option" where
  "seltou_take idx_enemy enemy_row enemy_col s =
     (if 0 \<le> enemy_row \<and> enemy_row < 9 \<and> 0 \<le> enemy_col \<and> enemy_col < 9 then
        (let s1 = s\<lparr>cell_control := set_cell (cell_control s) enemy_row enemy_col 0\<rparr>;
             s2 = remove_piece idx_enemy s1;
             s3 = (if selected_piece s2 > int idx_enemy
                   then s2\<lparr>selected_piece := selected_piece s2 - 1\<rparr> else s2)
         in Some (check_auto_defeat (update_scores s3)))
      else None)"

definition unit_step :: "int \<Rightarrow> int \<Rightarrow> int" where
  "unit_step x old = (if x \<noteq> old then (if x > old then 1 else -1) else 0)"

text \<open>\<^verbatim>\<open>check_seltou_capture\<close>; every \<^verbatim>\<open>return\<close> before the capture yields the state as it is.\<close>

definition check_seltou_capture :: "nat \<Rightarrow> int \<Rightarrow> int \<Rightarrow> game \<Rightarrow> game option" where
  "check_seltou_capture moved_index old_row old_col s =
     (let moved = pieces s ! moved_index;
          ally = color moved;
          enemy = enemy_of ally;
          r = row moved; c = col moved
      in if r \<noteq> old_row \<and> c \<noteq> old_col then Some s
         else if r = old_row \<and> c = old_col then Some s
         else
           (let d_r = unit_step r old_row; d_c = unit_step c old_col;
                enemy_row = wrap32 (r + d_r); enemy_col = wrap32 (c + d_c)
            in if enemy_row < 0 \<or> enemy_row > 8 \<or> enemy_col < 0 \<or> enemy_col > 8 then Some s
               else
                 (case find_piece_at s enemy_row enemy_col of
                    None \<Rightarrow> Some s
                  | Some idx_enemy \<Rightarrow>
                      if color (pieces s ! idx_enemy) \<noteq> enemy then Some s
                      else
                        (let back_row = wrap32 (enemy_row + d_r);
                             back_col = wrap32 (enemy_col + d_c);
                             protected =
                               (0 \<le> back_row \<and> back_row < 9 \<and> 0 \<le> back_col \<and> back_col < 9 \<and>
                                (case find_piece_at s back_row back_col of
                                   None \<Rightarrow> False
                                 | Some idx_back \<Rightarrow> color (pieces s ! idx_back) = enemy))
                         in if protected then Some s
                            else if type (pieces s ! idx_enemy) = CHR ''K''
                            then Some (capture_king idx_enemy s)
                            else seltou_take idx_enemy enemy_row enemy_col s))))"

section \<open>net.c\<close>

text \<open>
  \<^verbatim>\<open>send(2)\<close> belongs to the environment: given the state of the link, the socket and the
  bytes offered (\<^verbatim>\<open>move + total\<close>, \<^verbatim>\<open>4 - total\<close> of them; the counter \<^verbatim>\<open>total\<close> is \<open>tot\<close> below) it yields the call's result and
  the next state of the link. \<^verbatim>\<open>TCP_Send_Message\<close> returns its own result, the link, and
  the list of the calls it made, each with the buffer offered and the result obtained.
  A \<^verbatim>\<open>NULL\<close> move is \<open>None\<close>; \<^verbatim>\<open>strlen\<close> is the length of the string.
\<close>

type_synonym 'e sender = "'e \<Rightarrow> int \<Rightarrow> string \<Rightarrow> int \<times> 'e"

function send_loop ::
  "'e sender \<Rightarrow> int \<Rightarrow> string \<Rightarrow> nat \<Rightarrow> 'e \<Rightarrow> (string \<times> int) list \<Rightarrow> int \<times> 'e \<times> (string \<times> int) list"
where
  "send_loop send sock move tot e calls =
     (if tot < 4 then
        (let buf = take (4 - tot) (drop tot move) in
         case send e sock buf of
           (r, e') \<Rightarrow>
             if r \<le> 0 then (-1, e', calls @ [(buf, r)])
             else send_loop send sock move (tot + nat r) e' (calls @ [(buf, r)]))
      else (int tot, e, calls))"
  by pat_completeness auto
termination
  by (relation "measure (\<lambda>(send, sock, move, tot, e, calls). 4 - tot)") auto

declare send_loop.simps [simp del]

definition TCP_Send_Message ::
  "'e sender \<Rightarrow> int \<Rightarrow> string option \<Rightarrow> 'e \<Rightarrow> int \<times> 'e \<times> (string \<times> int) list"
where
  "TCP_Send_Message send sock move e =
     (case move of
        None \<Rightarrow> (-1, e, [])
      | Some m \<Rightarrow> if length m \<noteq> 4 then (-1, e, []) else send_loop send sock m 0 e [])"

text \<open>
  A \<^verbatim>\<open>char\<close> read as an \<^verbatim>\<open>int\<close>: signed, as on the Linux targets of the Makefile, so a
  byte from 0x80 on is negative.
\<close>

definition char_int :: "char \<Rightarrow> int" where
  "char_int ch = (let n = int (of_char ch) in if n < 128 then n else n - 256)"

text \<open>
  \<^verbatim>\<open>toupper\<close> as the C library of that target has it in the C locale, a table indexed from
  -128 to 255: a lower-case letter gives its upper-case letter; a negative argument from
  -128 to -2 (a byte 0x80 to 0xFE read as a signed \<^verbatim>\<open>char\<close>) gives the byte's unsigned
  value 128 to 254; \<^verbatim>\<open>EOF\<close> (-1) and every other value are returned as they are.
\<close>

definition toupper :: "int \<Rightarrow> int" where
  "toupper v =
     (if 97 \<le> v \<and> v \<le> 122 then v - 32
      else if - 128 \<le> v \<and> v \<le> - 2 then v + 256
      else v)"

text \<open>The label \<^verbatim>\<open>invalid_move\<close> of \<^verbatim>\<open>gui_move_piece_callback\<close>; \<^verbatim>\<open>INVALID_SOCKET\<close> is -1.\<close>

definition invalid_move :: "game \<Rightarrow> game" where
  "invalid_move s =
     (let s1 = s\<lparr>game_over := 1\<rparr>;
          s2 = set_victory_message (my_color s1 = CHR ''B'') Invalid_Peer_Move s1
      in if g_socket s2 \<noteq> -1
         then s2\<lparr>socket_calls := socket_calls s2 @ [Shutdown (g_socket s2), Close (g_socket s2)],
                 g_socket := -1\<rparr>
         else s2)"

text \<open>
  \<^verbatim>\<open>gui_move_piece_callback\<close>. The legality checker \<^verbatim>\<open>can_move\<close> and \<^verbatim>\<open>move_piece\<close> live in
  game.c, which is not among the sources: they are parameters. The decoded cells are
  (from_row, from_col) and (to_row, to_col).
\<close>

definition decode :: "string \<Rightarrow> (int \<times> int) \<times> (int \<times> int)" where
  "decode msg =
     (let from_col = toupper (char_int (msg ! 0)) - 65;
          from_row = 9 - (char_int (msg ! 1) - 48);
          to_col = toupper (char_int (msg ! 2)) - 65;
          to_row = 9 - (char_int (msg ! 3) - 48)
      in ((from_row, from_col), (to_row, to_col)))"

definition gui_move_piece_callback ::
  "(game \<Rightarrow> nat \<Rightarrow> int \<Rightarrow> int \<Rightarrow> bool) \<Rightarrow> (game \<Rightarrow> nat \<Rightarrow> int \<Rightarrow> int \<Rightarrow> game) \<Rightarrow> string \<Rightarrow> game \<Rightarrow> game"
where
  "gui_move_piece_callback can_move move_piece msg s =
     (if length msg \<noteq> 4 then s
      else
        (case decode msg of
           ((from_row, from_col), (to_row, to_col)) \<Rightarrow>
             (case find_piece_at s from_row from_col of
                None \<Rightarrow> invalid_move s
              | Some piece_idx \<Rightarrow>
                  if color (pieces s ! piece_idx) \<noteq> current_turn s then invalid_move s
                  else if \<not> can_move s piece_idx to_row to_col then invalid_move s
                  else move_piece s piece_idx to_row to_col)))"

section \<open>Vocabulary of the properties\<close>

text \<open>
  The tallies of \<^verbatim>\<open>check_auto_defeat\<close>, as the code takes them: a live piece whose colour is
  not \<^verbatim>\<open>'B'\<close> counts for Red, and one whose kind is not \<^verbatim>\<open>'K'\<close> counts as a soldier.
  A colour is reduced when it has exactly one King and exactly one soldier.
\<close>

definition blue_kings :: "game \<Rightarrow> nat" where
  "blue_kings s = length (filter (\<lambda>p. color p = CHR ''B'' \<and> type p = CHR ''K'') (live s))"

definition blue_soldiers :: "game \<Rightarrow> nat" where
  "blue_soldiers s = length (filter (\<lambda>p. color p = CHR ''B'' \<and> type p \<noteq> CHR ''K'') (live s))"

definition red_kings :: "game \<Rightarrow> nat" where
  "red_kings s = length (filter (\<lambda>p. color p \<noteq> CHR ''B'' \<and> type p = CHR ''K'') (live s))"

definition red_soldiers :: "game \<Rightarrow> nat" where
  "red_soldiers s = length (filter (\<lambda>p. color p \<noteq> CHR ''B'' \<and> type p \<noteq> CHR ''K'') (live s))"

definition blue_reduced :: "game \<Rightarrow> bool" where
  "blue_reduced s = (blue_kings s = 1 \<and> blue_soldiers s = 1)"

definition red_reduced :: "game \<Rightarrow> bool" where
  "red_reduced s = (red_kings s = 1 \<and> red_soldiers s = 1)"

text \<open>The game is over and one more victory message has been issued.\<close>

definition declare_winner :: "bool \<Rightarrow> reason \<Rightarrow> game \<Rightarrow> game" where
  "declare_winner blue_won why s =
     s\<lparr>victory_calls := victory_calls s @ [(blue_won, why)], game_over := 1\<rparr>"

text \<open>
  A cell of the 9 by 9 board (rows and columns 0 to 8, bounds included), and the content of
  a cell as the program sees it, through \<^verbatim>\<open>find_piece_at\<close>: the cell holds a piece of colour
  \<open>co\<close> when the lookup finds a live piece there and that piece has colour \<open>co\<close>.
\<close>

definition on_board :: "int \<Rightarrow> int \<Rightarrow> bool" where
  "on_board r c = (0 \<le> r \<and> r \<le> 8 \<and> 0 \<le> c \<and> c \<le> 8)"

definition holds :: "game \<Rightarrow> int \<Rightarrow> int \<Rightarrow> char \<Rightarrow> bool" where
  "holds s r c co = (case find_piece_at s r c of None \<Rightarrow> False | Some i \<Rightarrow> color (pieces s ! i) = co)"

definition cell_holds :: "game \<Rightarrow> int \<times> int \<Rightarrow> char \<Rightarrow> bool" where
  "cell_holds s cell co = (on_board (fst cell) (snd cell) \<and> holds s (fst cell) (snd cell) co)"

text \<open>
  The geometry of a completed move for \<^verbatim>\<open>check_seltou_capture\<close>: the moved piece stands at
  its destination, the origin is (old_row, old_col). The move is straight when exactly one
  coordinate changed. The enemy cell is one unit step beyond the destination, the back cell
  one further step.
\<close>

definition straight :: "nat \<Rightarrow> int \<Rightarrow> int \<Rightarrow> game \<Rightarrow> bool" where
  "straight mi old_row old_col s =
     ((row (pieces s ! mi) = old_row) \<noteq> (col (pieces s ! mi) = old_col))"

definition enemy_cell :: "nat \<Rightarrow> int \<Rightarrow> int \<Rightarrow> game \<Rightarrow> int \<times> int" where
  "enemy_cell mi old_row old_col s =
     (wrap32 (row (pieces s ! mi) + unit_step (row (pieces s ! mi)) old_row),
      wrap32 (col (pieces s ! mi) + unit_step (col (pieces s ! mi)) old_col))"

definition back_cell :: "nat \<Rightarrow> int \<Rightarrow> int \<Rightarrow> game \<Rightarrow> int \<times> int" where
  "back_cell mi old_row old_col s =
     (wrap32 (fst (enemy_cell mi old_row old_col s) + unit_step (row (pieces s ! mi)) old_row),
      wrap32 (snd (enemy_cell mi old_row old_col s) + unit_step (col (pieces s ! mi)) old_col))"

text \<open>
  The live slots fit into the array. \<open>shifted idx s s'\<close>: the live pieces of \<open>s'\<close> are those
  of \<open>s\<close> without the one at index \<open>idx\<close>, in the same order, and the count went down by one.
\<close>

definition array_ok :: "game \<Rightarrow> bool" where
  "array_ok s = (piece_count s \<le> length (pieces s))"

definition shifted :: "nat \<Rightarrow> game \<Rightarrow> game \<Rightarrow> bool" where
  "shifted idx s s' =
     (live s' = take idx (live s) @ drop (Suc idx) (live s) \<and>
      piece_count s' + 1 = piece_count s \<and> idx < piece_count s)"

text \<open>
  The condition of the flank rule: the move is straight, the enemy cell lies on the board and
  holds a piece of the enemy colour, and the back cell is not a board cell holding a piece of
  the enemy colour. \<open>flank_capture\<close>: the piece that left is the one the lookup finds on the
  enemy cell, it stands on that cell and has the enemy colour, and the other live pieces
  are as they were, in their order.
\<close>

definition unprotected_flank :: "nat \<Rightarrow> int \<Rightarrow> int \<Rightarrow> game \<Rightarrow> bool" where
  "unprotected_flank mi old_row old_col s =
     (straight mi old_row old_col s \<and>
      cell_holds s (enemy_cell mi old_row old_col s) (enemy_of (color (pieces s ! mi))) \<and>
      \<not> cell_holds s (back_cell mi old_row old_col s) (enemy_of (color (pieces s ! mi))))"

definition flank_capture :: "nat \<Rightarrow> int \<Rightarrow> int \<Rightarrow> game \<Rightarrow> game \<Rightarrow> bool" where
  "flank_capture mi old_row old_col s s' =
     (\<exists>idx. find_piece_at s (fst (enemy_cell mi old_row old_col s))
                             (snd (enemy_cell mi old_row old_col s)) = Some idx \<and>
            row (pieces s ! idx) = fst (enemy_cell mi old_row old_col s) \<and>
            col (pieces s ! idx) = snd (enemy_cell mi old_row old_col s) \<and>
            color (pieces s ! idx) = enemy_of (color (pieces s ! mi)) \<and>
            shifted idx s s')"

text \<open>
  The Kings among a list of pieces, and the outcome of a King capture by the side \<open>ally\<close>:
  the game is over and one victory message was added, for Blue exactly when \<open>ally\<close> is
  \<^verbatim>\<open>'B'\<close>, with the reason naming the other side's King.
\<close>

definition kings :: "Piece list \<Rightarrow> Piece list" where
  "kings ps = filter (\<lambda>p. type p = CHR ''K'') ps"

definition won_by :: "char \<Rightarrow> game \<Rightarrow> game \<Rightarrow> bool" where
  "won_by ally s s' =
     (game_over s' = 1 \<and>
      victory_calls s' = victory_calls s @
        [(ally = CHR ''B'', if ally = CHR ''B'' then Red_King_Captured else Blue_King_Captured)])"

text \<open>
  The board is 9 by 9. \<open>control_at\<close> reads \<^verbatim>\<open>cell_control[r][c]\<close>. No two live pieces
  stand on the same cell.
\<close>

definition board_ok :: "game \<Rightarrow> bool" where
  "board_ok s = (length (cell_control s) = 9 \<and> (\<forall>line \<in> set (cell_control s). length line = 9))"

definition control_at :: "game \<Rightarrow> int \<Rightarrow> int \<Rightarrow> int" where
  "control_at s r c = cell_control s ! nat r ! nat c"

definition cells_distinct :: "game \<Rightarrow> bool" where
  "cells_distinct s = distinct (map (\<lambda>p. (row p, col p)) (live s))"

text \<open>
  Between a state \<open>s\<close> and a later state \<open>s'\<close>: a soldier that stood on (r, c) is gone; and
  the rule that relates the two control grids, cell by cell: the control of a board cell is
  0 if a soldier standing on it was removed, and what it was otherwise.
\<close>

definition captured_soldier :: "game \<Rightarrow> game \<Rightarrow> int \<Rightarrow> int \<Rightarrow> bool" where
  "captured_soldier s s' r c =
     (\<exists>p \<in> set (live s). p \<notin> set (live s') \<and> type p \<noteq> CHR ''K'' \<and> row p = r \<and> col p = c)"

definition control_rule :: "game \<Rightarrow> game \<Rightarrow> bool" where
  "control_rule s s' =
     (\<forall>r c. on_board r c \<longrightarrow>
        control_at s' r c = (if captured_soldier s s' r c then 0 else control_at s r c))"

text \<open>
  What the capture loops keep true of an intermediate state \<open>t\<close> reached from \<open>s\<close>: it is
  well formed, its live pieces are among those of \<open>s\<close>, and its grid obeys the rule.
\<close>

definition tracked :: "game \<Rightarrow> game \<Rightarrow> bool" where
  "tracked s t = (array_ok t \<and> board_ok t \<and> cells_distinct t \<and>
                  set (live t) \<subseteq> set (live s) \<and> control_rule s t)"




text \<open>
  For \<^verbatim>\<open>gui_move_piece_callback\<close>. The origin and destination cells named by a token. A
  token is accepted for the piece at index \<open>i\<close> when the three checks pass: the origin cell
  holds the live piece \<open>i\<close>, its colour is the colour to move, and the legality checker
  allows the destination. \<open>torn_down s s'\<close> is the outcome of an invalid token: the game is
  over, one victory message was added, for Blue exactly when the local colour is \<^verbatim>\<open>'B'\<close>
  (so for the local player, whose colour is \<^verbatim>\<open>'B'\<close> or \<^verbatim>\<open>'R'\<close>), the socket variable is
  \<^verbatim>\<open>INVALID_SOCKET\<close>, a socket that was valid has been shut down and closed, and the
  position is as it was.
\<close>

definition origin :: "string \<Rightarrow> int \<times> int" where
  "origin msg = fst (decode msg)"

definition destination :: "string \<Rightarrow> int \<times> int" where
  "destination msg = snd (decode msg)"

definition accepted :: "(game \<Rightarrow> nat \<Rightarrow> int \<Rightarrow> int \<Rightarrow> bool) \<Rightarrow> string \<Rightarrow> game \<Rightarrow> nat \<Rightarrow> bool" where
  "accepted can_move msg s i =
     (find_piece_at s (fst (origin msg)) (snd (origin msg)) = Some i \<and>
      color (pieces s ! i) = current_turn s \<and>
      can_move s i (fst (destination msg)) (snd (destination msg)))"

definition torn_down :: "game \<Rightarrow> game \<Rightarrow> bool" where
  "torn_down s s' =
     (game_over s' = 1 \<and>
      victory_calls s' = victory_calls s @ [(my_color s = CHR ''B'', Invalid_Peer_Move)] \<and>
      g_socket s' = -1 \<and>
      socket_calls s' = socket_calls s @
        (if g_socket s \<noteq> -1 then [Shutdown (g_socket s), Close (g_socket s)] else []) \<and>
      pieces s' = pieces s \<and> piece_count s' = piece_count s \<and>
      cell_control s' = cell_control s \<and> current_turn s' = current_turn s)"

text \<open>
  For \<^verbatim>\<open>TCP_Send_Message\<close>. A sender is well behaved when, as \<^verbatim>\<open>send(2)\<close> promises, its
  result never exceeds the number of bytes offered. The bytes flushed by a list of calls are
  the first \<open>r\<close> bytes of each buffer, in order.
\<close>

definition well_behaved :: "'e sender \<Rightarrow> bool" where
  "well_behaved send = (\<forall>e sock buf. fst (send e sock buf) \<le> int (length buf))"

definition flushed :: "(string \<times> int) list \<Rightarrow> string" where
  "flushed calls = concat (map (\<lambda>(buf, r). take (nat r) buf) calls)"

section \<open>Concrete positions\<close>

text \<open>
  Concrete positions are built as tests/TestCapture.c builds them: \<^verbatim>\<open>reset_game_state\<close>
  followed by the listed pieces, on a neutral board, with no piece selected.
\<close>

definition mk_piece :: "int \<Rightarrow> int \<Rightarrow> char \<Rightarrow> char \<Rightarrow> Piece" where
  "mk_piece r c co ty = \<lparr>row = r, col = c, color = co, type = ty\<rparr>"

definition reset_game_state :: "Piece list \<Rightarrow> game" where
  "reset_game_state ps =
     \<lparr>pieces = ps, piece_count = length ps, cell_control = replicate 9 (replicate 9 0),
      selected_piece = -1, game_over = 0, score_blue = 0, score_red = 0, pieces_blue = 0,
      pieces_red = 0, current_turn = CHR ''B'', my_color = CHR ''B'', g_socket = 3,
      victory_calls = [], socket_calls = []\<rparr>"

text \<open>The position of \<^verbatim>\<open>test_auto_defeat\<close>: each side has its King and one soldier.\<close>

definition both_reduced :: game where
  "both_reduced = reset_game_state
     [mk_piece 0 0 CHR ''B'' CHR ''K'', mk_piece 0 1 CHR ''B'' CHR ''P'',
      mk_piece 8 8 CHR ''R'' CHR ''K'', mk_piece 8 7 CHR ''R'' CHR ''P'']"

text \<open>Red alone is reduced; Blue keeps two soldiers.\<close>

definition red_only_reduced :: game where
  "red_only_reduced = reset_game_state
     [mk_piece 0 0 CHR ''B'' CHR ''K'', mk_piece 0 1 CHR ''B'' CHR ''P'',
      mk_piece 0 2 CHR ''B'' CHR ''P'',
      mk_piece 8 8 CHR ''R'' CHR ''K'', mk_piece 8 7 CHR ''R'' CHR ''P'']"

text \<open>
  Positions for the flank rule. The moved Blue soldier stands on (4,4) and came from (3,4):
  one Red soldier in front of it (\<^verbatim>\<open>test_seltou_simple_capture\<close>), two Red soldiers in a
  row (\<^verbatim>\<open>test_seltou_deux_pieces\<close>), a Red soldier with a Blue soldier behind it; and a
  piece with huge coordinates as in \<^verbatim>\<open>test_seltou_out_of_bounds3\<close>.
\<close>

definition one_in_front :: game where
  "one_in_front = reset_game_state
     [mk_piece 4 4 CHR ''B'' CHR ''P'', mk_piece 5 4 CHR ''R'' CHR ''P'']"

definition two_in_front :: game where
  "two_in_front = reset_game_state
     [mk_piece 4 4 CHR ''B'' CHR ''P'', mk_piece 5 4 CHR ''R'' CHR ''P'',
      mk_piece 6 4 CHR ''R'' CHR ''P'']"

definition ally_behind :: game where
  "ally_behind = reset_game_state
     [mk_piece 4 4 CHR ''B'' CHR ''P'', mk_piece 5 4 CHR ''R'' CHR ''P'',
      mk_piece 6 4 CHR ''B'' CHR ''P'']"

definition far_away :: game where
  "far_away = reset_game_state
     [mk_piece 2147483647 4300000 CHR ''B'' CHR ''P'', mk_piece (-1) 0 CHR ''R'' CHR ''P'']"

text \<open>
  Positions for the sandwich rule, the moved Blue soldier on (4,4): Red soldiers flanked to
  the right and below; a flanked Red King above together with a flanked Red soldier to the
  right. And a Red King in front of a Blue soldier that came from (3,4).
\<close>

definition two_flanks :: game where
  "two_flanks = reset_game_state
     [mk_piece 4 4 CHR ''B'' CHR ''P'', mk_piece 4 5 CHR ''R'' CHR ''P'',
      mk_piece 4 6 CHR ''B'' CHR ''P'', mk_piece 5 4 CHR ''R'' CHR ''P'',
      mk_piece 6 4 CHR ''B'' CHR ''P'']"

definition king_flanked :: game where
  "king_flanked = reset_game_state
     [mk_piece 4 4 CHR ''B'' CHR ''P'', mk_piece 3 4 CHR ''R'' CHR ''K'',
      mk_piece 2 4 CHR ''B'' CHR ''P'', mk_piece 4 5 CHR ''R'' CHR ''P'',
      mk_piece 4 6 CHR ''B'' CHR ''P'']"

definition king_in_front :: game where
  "king_in_front = reset_game_state
     [mk_piece 4 4 CHR ''B'' CHR ''P'', mk_piece 5 4 CHR ''R'' CHR ''K'',
      mk_piece 0 0 CHR ''R'' CHR ''P'']"


text \<open>The same positions with some cells under control: (4,5) and (3,4) Red, (0,0) Blue.\<close>

definition two_flanks_controlled :: game where
  "two_flanks_controlled =
     two_flanks\<lparr>cell_control := set_cell (set_cell (cell_control two_flanks) 4 5 2) 0 0 1\<rparr>"

definition king_flanked_controlled :: game where
  "king_flanked_controlled =
     king_flanked\<lparr>cell_control := set_cell (cell_control king_flanked) 3 4 2\<rparr>"

text \<open>
  Stand-ins for the environment of net.c: a link that takes at most three bytes per call
  and counts the calls, a link that takes two bytes and then fails; a legality checker that
  allows everything, one that allows nothing, and a \<^verbatim>\<open>move_piece\<close> that only places the
  piece.
\<close>

definition chunk3 :: "nat sender" where
  "chunk3 e sock buf = (min 3 (int (length buf)), e + 1)"

definition broken :: "nat sender" where
  "broken e sock buf = (if e = 0 then min 2 (int (length buf)) else -1, e + 1)"

definition always_legal :: "game \<Rightarrow> nat \<Rightarrow> int \<Rightarrow> int \<Rightarrow> bool" where
  "always_legal s i r c = True"

definition never_legal :: "game \<Rightarrow> nat \<Rightarrow> int \<Rightarrow> int \<Rightarrow> bool" where
  "never_legal s i r c = False"

definition place :: "game \<Rightarrow> nat \<Rightarrow> int \<Rightarrow> int \<Rightarrow> game" where
  "place s i r c = s\<lparr>pieces := (pieces s)[i := (pieces s ! i)\<lparr>row := r, col := c\<rparr>]\<rparr>"

section \<open>Auto-defeat\<close>

lemma tally_counts:
  "tally ps (a, b, c, d) =
     (a + length (filter (\<lambda>p. color p = CHR ''B'' \<and> type p \<noteq> CHR ''K'') ps),
      b + length (filter (\<lambda>p. color p = CHR ''B'' \<and> type p = CHR ''K'') ps),
      c + length (filter (\<lambda>p. color p \<noteq> CHR ''B'' \<and> type p \<noteq> CHR ''K'') ps),
      d + length (filter (\<lambda>p. color p \<noteq> CHR ''B'' \<and> type p = CHR ''K'') ps))"
  by (induction ps arbitrary: a b c d) auto

lemma check_auto_defeat_cases:
  "check_auto_defeat s =
     (if game_over s \<noteq> 0 then s
      else if blue_reduced s then declare_winner False Blue_Pawn_And_King s
      else if red_reduced s then declare_winner True Red_Pawn_And_King s
      else s)"
  by (simp add: check_auto_defeat_def tally_counts blue_reduced_def red_reduced_def
      blue_kings_def blue_soldiers_def red_kings_def red_soldiers_def declare_winner_def
      set_victory_message_def Let_def)

lemmas fixture_defs =
  reset_game_state_def mk_piece_def live_def blue_reduced_def red_reduced_def
  blue_kings_def blue_soldiers_def red_kings_def red_soldiers_def

text \<open>
  C5, as the code has it. A reduced Blue loses: the game is over and the victory message
  names Red. A reduced Red loses, with the message naming Blue, when Blue is not reduced
  itself. When the game is already over on entry the state is returned as it is.
\<close>

theorem auto_defeat_amended:
  "(game_over s \<noteq> 0 \<longrightarrow> check_auto_defeat s = s) \<and>
   (game_over s = 0 \<and> blue_reduced s \<longrightarrow>
      check_auto_defeat s = declare_winner False Blue_Pawn_And_King s) \<and>
   (game_over s = 0 \<and> red_reduced s \<and> \<not> blue_reduced s \<longrightarrow>
      check_auto_defeat s = declare_winner True Red_Pawn_And_King s)"
  by (simp add: check_auto_defeat_cases)

theorem auto_defeat_amended_witness:
  "game_over (both_reduced\<lparr>game_over := 1\<rparr>) \<noteq> 0 \<and>
   check_auto_defeat (both_reduced\<lparr>game_over := 1\<rparr>) = both_reduced\<lparr>game_over := 1\<rparr> \<and>
   game_over both_reduced = 0 \<and> blue_reduced both_reduced \<and>
   check_auto_defeat both_reduced = declare_winner False Blue_Pawn_And_King both_reduced \<and>
   game_over red_only_reduced = 0 \<and> red_reduced red_only_reduced \<and>
   \<not> blue_reduced red_only_reduced \<and>
   check_auto_defeat red_only_reduced = declare_winner True Red_Pawn_And_King red_only_reduced"
  using auto_defeat_amended [of "both_reduced\<lparr>game_over := 1\<rparr>"]
    auto_defeat_amended [of both_reduced] auto_defeat_amended [of red_only_reduced]
  by (simp add: both_reduced_def red_only_reduced_def fixture_defs)

text \<open>
  C5 as stated fails where both sides are reduced: Red has exactly one King and one soldier
  and the game is not over, yet the one message issued has \<^verbatim>\<open>blue_won = FALSE\<close>, so Red
  is named the winner.
\<close>

theorem auto_defeat_counterexample:
  "game_over both_reduced = 0 \<and> red_reduced both_reduced \<and>
   game_over (check_auto_defeat both_reduced) = 1 \<and>
   victory_calls (check_auto_defeat both_reduced) = [(False, Blue_Pawn_And_King)]"
  by (simp add: check_auto_defeat_cases both_reduced_def fixture_defs declare_winner_def)

text \<open>
  C10: when both colours are reduced and the game is not over, Blue is the loser: the single
  message issued names Red, with the reason given for Blue. In every state one call adds at
  most one victory message and leaves the earlier ones in place.
\<close>

theorem auto_defeat_tie_break:
  "(game_over s = 0 \<and> blue_reduced s \<and> red_reduced s \<longrightarrow>
      check_auto_defeat s = declare_winner False Blue_Pawn_And_King s) \<and>
   (\<exists>calls. victory_calls (check_auto_defeat s) = victory_calls s @ calls \<and> length calls \<le> 1)"
  by (simp add: check_auto_defeat_cases declare_winner_def)

theorem auto_defeat_tie_break_witness:
  "game_over both_reduced = 0 \<and> blue_reduced both_reduced \<and> red_reduced both_reduced \<and>
   check_auto_defeat both_reduced = declare_winner False Blue_Pawn_And_King both_reduced \<and>
   victory_calls (declare_winner False Blue_Pawn_And_King both_reduced) =
     [(False, Blue_Pawn_And_King)]"
  using auto_defeat_tie_break [of both_reduced]
  by (simp add: both_reduced_def fixture_defs declare_winner_def)

section \<open>The removal loop\<close>

lemma shift_down_length [simp]: "length (shift_down ps k n) = length ps"
  by (induction ps k n rule: shift_down.induct) (subst shift_down.simps, simp)

lemma shift_down_nth:
  "n \<le> length ps \<Longrightarrow> i < length ps \<Longrightarrow>
   shift_down ps k n ! i = (if k \<le> i \<and> i + 1 < n then ps ! (i + 1) else ps ! i)"
proof (induction ps k n arbitrary: i rule: shift_down.induct)
  case (1 ps k n)
  show ?case
  proof (cases "k + 1 < n")
    case True
    have step: "shift_down ps k n = shift_down (ps[k := ps ! (k + 1)]) (k + 1) n"
      using True by (subst shift_down.simps) simp
    have "shift_down (ps[k := ps ! (k + 1)]) (k + 1) n ! i =
          (if k + 1 \<le> i \<and> i + 1 < n then ps[k := ps ! (k + 1)] ! (i + 1)
           else ps[k := ps ! (k + 1)] ! i)"
      using "1.IH" [OF True, of i] "1.prems" by simp
    then show ?thesis
      using True "1.prems" unfolding step by (auto simp: nth_list_update)
  next
    case False
    then have "shift_down ps k n = ps" by (subst shift_down.simps) simp
    with False show ?thesis by auto
  qed
qed

lemma take_shift_down:
  assumes "k < n" and "n \<le> length ps"
  shows "take (n - 1) (shift_down ps k n) = take k (take n ps) @ drop (Suc k) (take n ps)"
proof (rule nth_equalityI)
  show "length (take (n - 1) (shift_down ps k n)) =
        length (take k (take n ps) @ drop (Suc k) (take n ps))"
    using assms by simp
next
  fix i assume "i < length (take (n - 1) (shift_down ps k n))"
  then have i: "i < n - 1" by simp
  then have "take (n - 1) (shift_down ps k n) ! i = shift_down ps k n ! i" by simp
  also have "\<dots> = (if k \<le> i \<and> i + 1 < n then ps ! (i + 1) else ps ! i)"
    using shift_down_nth [of n ps i k] assms i by simp
  also have "\<dots> = (take k (take n ps) @ drop (Suc k) (take n ps)) ! i"
    using assms i by (auto simp: nth_append min_def)
  finally show "take (n - 1) (shift_down ps k n) ! i =
                (take k (take n ps) @ drop (Suc k) (take n ps)) ! i" .
qed

lemma live_remove_piece:
  "idx < piece_count s \<Longrightarrow> array_ok s \<Longrightarrow>
   live (remove_piece idx s) = take idx (live s) @ drop (Suc idx) (live s)"
proof -
  assume a: "idx < piece_count s" "array_ok s"
  have "live (remove_piece idx s) =
        take (piece_count s - 1) (shift_down (pieces s) idx (piece_count s))"
    by (simp add: live_def remove_piece_def)
  also have "\<dots> = take idx (take (piece_count s) (pieces s)) @
                   drop (Suc idx) (take (piece_count s) (pieces s))"
    using a by (intro take_shift_down) (simp_all add: array_ok_def)
  finally show ?thesis by (simp only: live_def)
qed

lemma array_ok_remove_piece: "array_ok s \<Longrightarrow> array_ok (remove_piece idx s)"
  by (simp add: array_ok_def remove_piece_def)

section \<open>Lookup, and the effect of one capture\<close>

lemma on_board_off: "(r < 0 \<or> 8 < r \<or> c < 0 \<or> 8 < c) = (\<not> on_board r c)"
  by (auto simp: on_board_def)

lemma on_board_lt9: "(0 \<le> r \<and> r < 9 \<and> 0 \<le> c \<and> c < 9) = on_board r c"
  by (auto simp: on_board_def)

lemma on_board_lt9_conj: "(0 \<le> r \<and> r < 9 \<and> 0 \<le> c \<and> c < 9 \<and> X) = (on_board r c \<and> X)"
  by (auto simp: on_board_def)

lemma find_piece_in_SomeD:
  "find_piece_in ps r c = Some i \<Longrightarrow> i < length ps \<and> row (ps ! i) = r \<and> col (ps ! i) = c"
  by (induction ps arbitrary: i) (auto split: if_splits)

lemma find_piece_at_SomeD:
  assumes "find_piece_at s r c = Some i" and "array_ok s"
  shows "i < piece_count s" and "pieces s ! i = live s ! i" and "i < length (live s)"
    and "row (live s ! i) = r" and "col (live s ! i) = c"
proof -
  have a: "i < length (live s) \<and> row (live s ! i) = r \<and> col (live s ! i) = c"
    using assms(1) find_piece_in_SomeD [of "live s" r c i] by (simp add: find_piece_at_def)
  then show "i < length (live s)" "row (live s ! i) = r" "col (live s ! i) = c" by simp_all
  show "i < piece_count s" using assms(1) by (rule find_piece_at_bound)
  then show "pieces s ! i = live s ! i" by (simp add: live_def)
qed

lemma linca_hit_SomeD:
  assumes "linca_hit s r c ally enemy d = Some i"
  shows "find_piece_at s (wrap32 (r + dr ! d)) (wrap32 (c + dc ! d)) = Some i"
    and "color (pieces s ! i) = enemy"
    and "on_board (wrap32 (r + 2 * dr ! d)) (wrap32 (c + 2 * dc ! d))"
    and "holds s (wrap32 (r + 2 * dr ! d)) (wrap32 (c + 2 * dc ! d)) ally"
  using assms
  by (auto simp: linca_hit_def Let_def on_board_def holds_def split: if_splits option.splits)

lemma live_set_victory_message [simp]: "live (set_victory_message b w s) = live s"
  by (simp add: live_def set_victory_message_def)

lemma array_ok_set_victory_message [simp]: "array_ok (set_victory_message b w s) = array_ok s"
  by (simp add: array_ok_def set_victory_message_def)

lemma piece_count_set_victory_message [simp]:
  "piece_count (set_victory_message b w s) = piece_count s"
  by (simp add: set_victory_message_def)

lemma piece_count_remove_piece [simp]: "piece_count (remove_piece i s) = piece_count s - 1"
  by (simp add: remove_piece_def)

lemma live_capture_king:
  "idx < piece_count s \<Longrightarrow> array_ok s \<Longrightarrow>
   live (capture_king idx s) = take idx (live s) @ drop (Suc idx) (live s)"
proof -
  assume a: "idx < piece_count s" "array_ok s"
  have "live (capture_king idx s) = live (remove_piece idx (set_victory_message
          (color (pieces s ! idx) \<noteq> CHR ''B'')
          (if color (pieces s ! idx) = CHR ''B'' then Blue_King_Captured else Red_King_Captured) s))"
    by (simp add: capture_king_def Let_def live_def)
  also have "\<dots> = take idx (live s) @ drop (Suc idx) (live s)"
    using a by (subst live_remove_piece) simp_all
  finally show ?thesis .
qed

lemma array_ok_capture_king: "array_ok s \<Longrightarrow> array_ok (capture_king idx s)"
  by (simp add: capture_king_def Let_def array_ok_def remove_piece_def set_victory_message_def)

lemma piece_count_capture_king [simp]: "piece_count (capture_king i s) = piece_count s - 1"
  by (simp add: capture_king_def Let_def)

lemma capture_king_outcome:
  "game_over (capture_king idx s) = 1"
  "victory_calls (capture_king idx s) = victory_calls s @
     [(color (pieces s ! idx) \<noteq> CHR ''B'',
       if color (pieces s ! idx) = CHR ''B'' then Blue_King_Captured else Red_King_Captured)]"
  "cell_control (capture_king idx s) = cell_control s"
  by (simp_all add: capture_king_def Let_def remove_piece_def set_victory_message_def)

lemma live_linca_take:
  "idx < piece_count s \<Longrightarrow> array_ok s \<Longrightarrow>
   live (linca_take idx r1 c1 s) = take idx (live s) @ drop (Suc idx) (live s)"
proof -
  assume a: "idx < piece_count s" "array_ok s"
  let ?s1 = "if 0 \<le> r1 \<and> r1 < 9 \<and> 0 \<le> c1 \<and> c1 < 9
             then s\<lparr>cell_control := set_cell (cell_control s) r1 c1 0\<rparr> else s"
  have l1: "live ?s1 = live s" and p1: "piece_count ?s1 = piece_count s" and "array_ok ?s1"
    using a by (simp_all add: live_def array_ok_def)
  then have "live (remove_piece idx ?s1) = take idx (live s) @ drop (Suc idx) (live s)"
    using a live_remove_piece [of idx ?s1] by simp
  moreover have "live (linca_take idx r1 c1 s) = live (remove_piece idx ?s1)"
    by (simp add: linca_take_def Let_def live_def)
  ultimately show ?thesis by simp
qed

lemma array_ok_linca_take: "array_ok s \<Longrightarrow> array_ok (linca_take idx r1 c1 s)"
  by (auto simp: linca_take_def Let_def array_ok_def remove_piece_def)

lemma linca_take_outcome:
  "game_over (linca_take idx r1 c1 s) = game_over s"
  "victory_calls (linca_take idx r1 c1 s) = victory_calls s"
  "cell_control (linca_take idx r1 c1 s) =
     (if on_board r1 c1 then set_cell (cell_control s) r1 c1 0 else cell_control s)"
  by (simp_all add: linca_take_def Let_def remove_piece_def on_board_lt9)

lemma subseq_remove_nth: "subseq (take i xs @ drop (Suc i) xs) xs"
proof -
  have "subseq (drop (Suc i) xs) (drop i xs)"
    by (cases "i < length xs") (auto simp: Cons_nth_drop_Suc [symmetric])
  then have "subseq (take i xs @ drop (Suc i) xs) (take i xs @ drop i xs)"
    by (simp only: subseq_append')
  then show ?thesis by simp
qed

section \<open>A proof rule for the direction loop\<close>

lemma linca_scan_rule:
  assumes start: "I s" "\<forall>d'<d. linca_hit s r c ally enemy d' = None"
    and step: "\<And>s d idx1. I s \<Longrightarrow> d < 4 \<Longrightarrow> linca_hit s r c ally enemy d = Some idx1 \<Longrightarrow>
                 type (pieces s ! idx1) \<noteq> CHR ''K'' \<Longrightarrow>
                 I (linca_take idx1 (wrap32 (r + dr ! d)) (wrap32 (c + dc ! d)) s)"
    and king: "\<And>s d idx1. I s \<Longrightarrow> d < 4 \<Longrightarrow> linca_hit s r c ally enemy d = Some idx1 \<Longrightarrow>
                 type (pieces s ! idx1) = CHR ''K'' \<Longrightarrow> Q (capture_king idx1 s)"
    and quiet: "\<And>s. I s \<Longrightarrow> \<forall>d<4. linca_hit s r c ally enemy d = None \<Longrightarrow> Q s"
  shows "Q (linca_scan s r c ally enemy d)"
  using assms
proof (induction s r c ally enemy d rule: linca_scan.induct)
  case (1 s r c ally enemy d)
  note pre = "1.prems"
  show ?case
  proof (cases "d < 4")
    case False
    then have "linca_scan s r c ally enemy d = s" by (subst linca_scan.simps) simp
    moreover have "\<forall>d<4. linca_hit s r c ally enemy d = None" using pre(2) False by auto
    ultimately show ?thesis using "1.prems"(5) [OF pre(1)] by simp
  next
    case True
    show ?thesis
    proof (cases "linca_hit s r c ally enemy d")
      case None
      have eq: "linca_scan s r c ally enemy d = linca_scan s r c ally enemy (d + 1)"
        using True None by (subst linca_scan.simps) simp
      have nohit: "\<forall>d'<d + 1. linca_hit s r c ally enemy d' = None"
        using pre(2) None by (auto simp: less_Suc_eq)
      show ?thesis
        unfolding eq by (rule "1.IH"(1) [OF True None pre(1) nohit "1.prems"(3,4,5)])
    next
      case (Some idx1)
      show ?thesis
      proof (cases "type (pieces s ! idx1) = CHR ''K''")
        case K: True
        have "linca_scan s r c ally enemy d = capture_king idx1 s"
          using True Some K by (subst linca_scan.simps) simp
        then show ?thesis using "1.prems"(4) [OF pre(1) True Some K] by simp
      next
        case K: False
        let ?s2 = "linca_take idx1 (wrap32 (r + dr ! d)) (wrap32 (c + dc ! d)) s"
        have eq: "linca_scan s r c ally enemy d = linca_scan ?s2 r c ally enemy 0"
          using True Some K by (subst linca_scan.simps) simp
        have I2: "I ?s2" by (rule "1.prems"(3) [OF pre(1) True Some K])
        have nohit: "\<forall>d'<0. linca_hit ?s2 r c ally enemy d' = None" by simp
        show ?thesis
          unfolding eq by (rule "1.IH"(2) [OF True Some K I2 nohit "1.prems"(3,4,5)])
      qed
    qed
  qed
qed

section \<open>The flank rule by cases\<close>

lemma seltou_unfold:
  "check_seltou_capture mi old_row old_col s =
    (let enemy = enemy_of (color (pieces s ! mi));
         ecell = enemy_cell mi old_row old_col s;
         bcell = back_cell mi old_row old_col s
     in if \<not> straight mi old_row old_col s then Some s
        else if \<not> cell_holds s ecell enemy then Some s
        else if cell_holds s bcell enemy then Some s
        else if type (pieces s ! the (find_piece_at s (fst ecell) (snd ecell))) = CHR ''K''
        then Some (capture_king (the (find_piece_at s (fst ecell) (snd ecell))) s)
        else seltou_take (the (find_piece_at s (fst ecell) (snd ecell))) (fst ecell) (snd ecell) s)"
proof -
  define r c where "r = row (pieces s ! mi)" and "c = col (pieces s ! mi)"
  define er ec where "er = wrap32 (r + unit_step r old_row)" and "ec = wrap32 (c + unit_step c old_col)"
  define br bc where "br = wrap32 (er + unit_step r old_row)" and "bc = wrap32 (ec + unit_step c old_col)"
  define enemy where "enemy = enemy_of (color (pieces s ! mi))"
  have ecell: "enemy_cell mi old_row old_col s = (er, ec)"
    by (simp add: enemy_cell_def er_def ec_def r_def c_def)
  have bcell: "back_cell mi old_row old_col s = (br, bc)"
    by (simp add: back_cell_def ecell br_def bc_def r_def c_def)
  have lhs: "check_seltou_capture mi old_row old_col s =
     (if r \<noteq> old_row \<and> c \<noteq> old_col then Some s
      else if r = old_row \<and> c = old_col then Some s
      else if \<not> on_board er ec then Some s
      else (case find_piece_at s er ec of None \<Rightarrow> Some s
            | Some idx_enemy \<Rightarrow>
               if color (pieces s ! idx_enemy) \<noteq> enemy then Some s
               else if on_board br bc \<and> holds s br bc enemy then Some s
               else if type (pieces s ! idx_enemy) = CHR ''K'' then Some (capture_king idx_enemy s)
               else seltou_take idx_enemy er ec s))"
    unfolding check_seltou_capture_def Let_def holds_def
      r_def [symmetric] c_def [symmetric] er_def [symmetric] ec_def [symmetric]
      br_def [symmetric] bc_def [symmetric] enemy_def [symmetric] on_board_off on_board_lt9_conj on_board_lt9
    by (rule refl)
  show ?thesis
    unfolding lhs Let_def ecell bcell fst_conv snd_conv enemy_def [symmetric]
      straight_def r_def [symmetric] c_def [symmetric] cell_holds_def
    by (cases "find_piece_at s er ec") (auto simp: holds_def)
qed

lemma check_auto_defeat_frame [simp]:
  "live (check_auto_defeat s) = live s"
  "piece_count (check_auto_defeat s) = piece_count s"
  "pieces (check_auto_defeat s) = pieces s"
  "cell_control (check_auto_defeat s) = cell_control s"
  by (simp_all add: check_auto_defeat_cases declare_winner_def live_def)

lemma update_scores_frame [simp]:
  "live (update_scores s) = live s"
  "piece_count (update_scores s) = piece_count s"
  "pieces (update_scores s) = pieces s"
  "cell_control (update_scores s) = cell_control s"
  "game_over (update_scores s) = game_over s"
  "victory_calls (update_scores s) = victory_calls s"
  by (simp_all add: update_scores_def live_def)

lemma seltou_take_SomeD:
  assumes "seltou_take idx er ec s = Some s'"
  shows "on_board er ec"
    and "piece_count s' = piece_count s - 1"
    and "cell_control s' = set_cell (cell_control s) er ec 0"
    and "idx < piece_count s \<Longrightarrow> array_ok s \<Longrightarrow>
         live s' = take idx (live s) @ drop (Suc idx) (live s)"
proof -
  let ?s1 = "s\<lparr>cell_control := set_cell (cell_control s) er ec 0\<rparr>"
  let ?s2 = "remove_piece idx ?s1"
  let ?s3 = "if selected_piece ?s2 > int idx
             then ?s2\<lparr>selected_piece := selected_piece ?s2 - 1\<rparr> else ?s2"
  have ob: "0 \<le> er \<and> er < 9 \<and> 0 \<le> ec \<and> ec < 9"
    using assms by (simp add: seltou_take_def split: if_splits)
  then show "on_board er ec" by (simp add: on_board_lt9)
  have s': "s' = check_auto_defeat (update_scores ?s3)"
    using assms ob by (simp add: seltou_take_def Let_def)
  show "piece_count s' = piece_count s - 1" unfolding s' by simp
  show "cell_control s' = set_cell (cell_control s) er ec 0"
    unfolding s' by (simp add: remove_piece_def)
  assume a: "idx < piece_count s" "array_ok s"
  have "live ?s3 = live ?s2" by (simp add: live_def)
  also have "\<dots> = take idx (live ?s1) @ drop (Suc idx) (live ?s1)"
    using a by (intro live_remove_piece) (simp_all add: array_ok_def)
  also have "live ?s1 = live s" by (simp add: live_def)
  finally show "live s' = take idx (live s) @ drop (Suc idx) (live s)"
    unfolding s' by simp
qed

lemma seltou_take_total: "on_board er ec \<Longrightarrow> seltou_take idx er ec s \<noteq> None"
  by (simp add: seltou_take_def Let_def on_board_lt9)

lemma holds_SomeD: "holds s r c co \<Longrightarrow> \<exists>i. find_piece_at s r c = Some i \<and> color (pieces s ! i) = co"
  by (auto simp: holds_def split: option.splits)

text \<open>The outcome of the flank rule, by cases.\<close>

lemma seltou_cases:
  obtains (same) "check_seltou_capture mi old_row old_col s = Some s"
  | (king) idx where "find_piece_at s (fst (enemy_cell mi old_row old_col s))
                         (snd (enemy_cell mi old_row old_col s)) = Some idx"
      "color (pieces s ! idx) = enemy_of (color (pieces s ! mi))"
      "type (pieces s ! idx) = CHR ''K''"
      "check_seltou_capture mi old_row old_col s = Some (capture_king idx s)"
  | (soldier) idx s' where "find_piece_at s (fst (enemy_cell mi old_row old_col s))
                         (snd (enemy_cell mi old_row old_col s)) = Some idx"
      "color (pieces s ! idx) = enemy_of (color (pieces s ! mi))"
      "type (pieces s ! idx) \<noteq> CHR ''K''"
      "seltou_take idx (fst (enemy_cell mi old_row old_col s))
                         (snd (enemy_cell mi old_row old_col s)) s = Some s'"
      "check_seltou_capture mi old_row old_col s = Some s'"
proof -
  let ?e = "enemy_of (color (pieces s ! mi))"
  let ?ec = "enemy_cell mi old_row old_col s"
  show thesis
  proof (cases "straight mi old_row old_col s \<and> cell_holds s ?ec ?e \<and>
                \<not> cell_holds s (back_cell mi old_row old_col s) ?e")
    case False
    then have "check_seltou_capture mi old_row old_col s = Some s"
      by (auto simp: seltou_unfold Let_def)
    then show ?thesis by (rule same)
  next
    case True
    then obtain idx where idx: "find_piece_at s (fst ?ec) (snd ?ec) = Some idx"
        "color (pieces s ! idx) = ?e" and ob: "on_board (fst ?ec) (snd ?ec)"
      using holds_SomeD [of s "fst ?ec" "snd ?ec" ?e] by (auto simp: cell_holds_def)
    show ?thesis
    proof (cases "type (pieces s ! idx) = CHR ''K''")
      case K: True
      have "check_seltou_capture mi old_row old_col s = Some (capture_king idx s)"
        using True idx K by (simp add: seltou_unfold Let_def)
      then show ?thesis using idx K king by blast
    next
      case K: False
      obtain s' where s': "seltou_take idx (fst ?ec) (snd ?ec) s = Some s'"
        using seltou_take_total [OF ob, of idx s] by auto
      have "check_seltou_capture mi old_row old_col s = Some s'"
        using True idx K s' by (simp add: seltou_unfold Let_def)
      then show ?thesis using idx K s' soldier by blast
    qed
  qed
qed

lemma capture_compaction_parts:
  assumes "array_ok s"
  shows "idx < piece_count s \<longrightarrow>
           piece_count (remove_piece idx s) + 1 = piece_count s \<and>
           (\<forall>j < piece_count s - 1.
              pieces (remove_piece idx s) ! j =
                (if j < idx then pieces s ! j else pieces s ! (j + 1)))"
    and "subseq (live (check_linca_capture mi s)) (live s) \<and>
         piece_count (check_linca_capture mi s) = length (live (check_linca_capture mi s))"
    and "\<exists>s'. check_seltou_capture mi old_row old_col s = Some s' \<and>
              (live s' = live s \<and> piece_count s' = piece_count s \<or> (\<exists>idx. shifted idx s s'))"
proof -
  show "idx < piece_count s \<longrightarrow>
           piece_count (remove_piece idx s) + 1 = piece_count s \<and>
           (\<forall>j < piece_count s - 1.
              pieces (remove_piece idx s) ! j =
                (if j < idx then pieces s ! j else pieces s ! (j + 1)))"
    using assms by (auto simp: remove_piece_def array_ok_def shift_down_nth)
next
  let ?Q = "\<lambda>s'. array_ok s' \<and> subseq (live s') (live s)"
  have "?Q (linca_scan s (row (pieces s ! mi)) (col (pieces s ! mi)) (color (pieces s ! mi))
              (enemy_of (color (pieces s ! mi))) 0)"
  proof (rule linca_scan_rule [where I = ?Q])
    show "?Q s" using assms by simp
  next
    fix t d idx1
    assume t: "?Q t" and hit: "linca_hit t (row (pieces s ! mi)) (col (pieces s ! mi))
        (color (pieces s ! mi)) (enemy_of (color (pieces s ! mi))) d = Some idx1"
    have lt: "idx1 < piece_count t" using hit by (rule linca_hit_bound)
    have sub: "subseq (take idx1 (live t) @ drop (Suc idx1) (live t)) (live s)"
      using subseq_remove_nth t subseq_order.order_trans by blast
    show "?Q (linca_take idx1 (wrap32 (row (pieces s ! mi) + dr ! d))
                (wrap32 (col (pieces s ! mi) + dc ! d)) t)"
      using t lt sub by (simp add: live_linca_take array_ok_linca_take)
    show "?Q (capture_king idx1 t)"
      using t lt sub by (simp add: live_capture_king array_ok_capture_king)
  qed simp_all
  then show "subseq (live (check_linca_capture mi s)) (live s) \<and>
         piece_count (check_linca_capture mi s) = length (live (check_linca_capture mi s))"
    by (simp add: check_linca_capture_def Let_def array_ok_def live_def)
next
  show "\<exists>s'. check_seltou_capture mi old_row old_col s = Some s' \<and>
              (live s' = live s \<and> piece_count s' = piece_count s \<or> (\<exists>idx. shifted idx s s'))"
  proof (cases rule: seltou_cases [of mi old_row old_col s])
    case same
    then show ?thesis by simp
  next
    case (king idx)
    have lt: "idx < piece_count s" using king(1) by (rule find_piece_at_bound)
    then have "shifted idx s (capture_king idx s)"
      using assms by (simp add: shifted_def live_capture_king)
    then show ?thesis using king(4) by blast
  next
    case (soldier idx s')
    have lt: "idx < piece_count s" using soldier(1) by (rule find_piece_at_bound)
    then have "shifted idx s s'"
      using assms seltou_take_SomeD(2,4) [OF soldier(4)] by (simp add: shifted_def)
    then show ?thesis using soldier(5) by blast
  qed
qed

section \<open>Removal is an order-preserving compaction\<close>

text \<open>
  C7. In a state whose live slots fit into the array: the removal loop at index \<open>idx\<close>
  leaves every slot below \<open>idx\<close> as it was, moves each later live slot down by one position,
  and lowers \<^verbatim>\<open>piece_count\<close> by one. After \<^verbatim>\<open>check_linca_capture\<close> the live pieces are a
  subsequence of the live pieces before (same pieces with the same fields, same relative
  order) and \<^verbatim>\<open>piece_count\<close> is their number, so it went down by one for each piece
  removed. \<^verbatim>\<open>check_seltou_capture\<close> returns, and either leaves the live pieces and the
  count as they were or removes the piece at one index, the others keeping their order,
  with the count lowered by one.
\<close>

theorem capture_compaction:
  assumes "array_ok s"
  shows "(idx < piece_count s \<longrightarrow>
            piece_count (remove_piece idx s) + 1 = piece_count s \<and>
            (\<forall>j < piece_count s - 1.
               pieces (remove_piece idx s) ! j =
                 (if j < idx then pieces s ! j else pieces s ! (j + 1)))) \<and>
         subseq (live (check_linca_capture mi s)) (live s) \<and>
         piece_count (check_linca_capture mi s) = length (live (check_linca_capture mi s)) \<and>
         (\<exists>s'. check_seltou_capture mi old_row old_col s = Some s' \<and>
               (live s' = live s \<and> piece_count s' = piece_count s \<or> (\<exists>i. shifted i s s')))"
  using capture_compaction_parts(1) [OF assms, of idx] capture_compaction_parts(2) [OF assms, of mi]
    capture_compaction_parts(3) [OF assms, of mi old_row old_col]
  by blast

theorem capture_compaction_witness:
  "array_ok two_flanks \<and> (1::nat) < piece_count two_flanks \<and>
   piece_count (remove_piece 1 two_flanks) + 1 = piece_count two_flanks \<and>
   pieces (remove_piece 1 two_flanks) ! 0 = pieces two_flanks ! 0 \<and>
   pieces (remove_piece 1 two_flanks) ! 1 = pieces two_flanks ! 2 \<and>
   pieces (remove_piece 1 two_flanks) ! 3 = pieces two_flanks ! 4 \<and>
   subseq (live (check_linca_capture 0 two_flanks)) (live two_flanks) \<and>
   piece_count (check_linca_capture 0 two_flanks) =
     length (live (check_linca_capture 0 two_flanks)) \<and>
   (\<exists>s'. check_seltou_capture 0 3 4 one_in_front = Some s' \<and>
         (live s' = live one_in_front \<and> piece_count s' = piece_count one_in_front \<or>
          (\<exists>i. shifted i one_in_front s')))"
proof -
  have a: "array_ok two_flanks" "array_ok one_in_front" "(1::nat) < piece_count two_flanks"
    by (simp_all add: array_ok_def two_flanks_def one_in_front_def reset_game_state_def)
  have n: "piece_count two_flanks - 1 = 4"
    by (simp add: two_flanks_def reset_game_state_def)
  note t = capture_compaction [OF a(1), where idx = 1 and mi = 0]
  have sh: "\<forall>j<4. pieces (remove_piece 1 two_flanks) ! j =
              (if j < 1 then pieces two_flanks ! j else pieces two_flanks ! (j + 1))"
    using t a(3) n by simp
  have "pieces (remove_piece 1 two_flanks) ! 0 = pieces two_flanks ! 0"
    "pieces (remove_piece 1 two_flanks) ! 1 = pieces two_flanks ! 2"
    "pieces (remove_piece 1 two_flanks) ! 3 = pieces two_flanks ! 4"
    using sh [rule_format, of 0] sh [rule_format, of 1] sh [rule_format, of 3]
    by (simp_all add: numeral_2_eq_2)
  then show ?thesis
    using a t capture_compaction [OF a(2), where mi = 0 and old_row = 3 and old_col = 4]
    by simp
qed

section \<open>King capture\<close>

lemma kings_remove_soldier:
  assumes "i < length xs" and "type (xs ! i) \<noteq> CHR ''K''"
  shows "kings (take i xs @ drop (Suc i) xs) = kings xs"
proof -
  have "kings xs = kings (take i xs @ xs ! i # drop (Suc i) xs)"
    using assms(1) by (simp add: id_take_nth_drop [symmetric])
  then show ?thesis using assms(2) by (simp add: kings_def)
qed

lemma capture_king_won_by:
  assumes "color (pieces t ! idx) = enemy_of ally"
    and "victory_calls t = victory_calls s"
  shows "won_by ally s (capture_king idx t)"
  using assms by (simp add: won_by_def capture_king_outcome enemy_of_def)

lemma linca_king_stops:
  "d < 4 \<Longrightarrow> linca_hit s r c ally enemy d = Some idx \<Longrightarrow> type (pieces s ! idx) = CHR ''K'' \<Longrightarrow>
   linca_scan s r c ally enemy d = capture_king idx s"
  by (subst linca_scan.simps) simp

lemma linca_king_outcome:
  assumes "array_ok s"
  shows "kings (live (check_linca_capture mi s)) \<noteq> kings (live s) \<longrightarrow>
         won_by (color (pieces s ! mi)) s (check_linca_capture mi s)"
proof -
  let ?ally = "color (pieces s ! mi)"
  let ?I = "\<lambda>t. array_ok t \<and> kings (live t) = kings (live s) \<and>
                 victory_calls t = victory_calls s"
  let ?Q = "\<lambda>t. kings (live t) \<noteq> kings (live s) \<longrightarrow> won_by ?ally s t"
  have "?Q (linca_scan s (row (pieces s ! mi)) (col (pieces s ! mi)) ?ally (enemy_of ?ally) 0)"
  proof (rule linca_scan_rule [where I = ?I])
    show "?I s" using assms by simp
  next
    fix t d idx1
    assume t: "?I t" and hit: "linca_hit t (row (pieces s ! mi)) (col (pieces s ! mi))
        ?ally (enemy_of ?ally) d = Some idx1"
    have lt: "idx1 < piece_count t" using hit by (rule linca_hit_bound)
    have col: "color (pieces t ! idx1) = enemy_of ?ally" using hit by (rule linca_hit_SomeD(2))
    have nth: "pieces t ! idx1 = live t ! idx1" and len: "idx1 < length (live t)"
      using lt t by (simp_all add: live_def array_ok_def)
    show "?Q (capture_king idx1 t)"
      using t col by (simp add: capture_king_won_by)
    assume "type (pieces t ! idx1) \<noteq> CHR ''K''"
    then have "kings (take idx1 (live t) @ drop (Suc idx1) (live t)) = kings (live t)"
      using len nth by (intro kings_remove_soldier) simp_all
    then show "?I (linca_take idx1 (wrap32 (row (pieces s ! mi) + dr ! d))
                (wrap32 (col (pieces s ! mi) + dc ! d)) t)"
      using t lt by (simp add: live_linca_take array_ok_linca_take linca_take_outcome)
  qed simp_all
  then show ?thesis by (simp add: check_linca_capture_def Let_def)
qed

lemma seltou_king_outcome:
  assumes "array_ok s" and "check_seltou_capture mi old_row old_col s = Some s'"
    and "kings (live s') \<noteq> kings (live s)"
  shows "won_by (color (pieces s ! mi)) s s'"
proof (cases rule: seltou_cases [of mi old_row old_col s])
  case same
  then show ?thesis using assms by simp
next
  case (king idx)
  then show ?thesis using assms(2) by (simp add: capture_king_won_by)
next
  case (soldier idx t)
  have lt: "idx < piece_count s" using soldier(1) by (rule find_piece_at_bound)
  then have nth: "pieces s ! idx = live s ! idx" and len: "idx < length (live s)"
    using assms(1) by (simp_all add: live_def array_ok_def)
  have "live s' = take idx (live s) @ drop (Suc idx) (live s)"
    using seltou_take_SomeD(4) [OF soldier(4) lt assms(1)] soldier(5) assms(2) by simp
  then have "kings (live s') = kings (live s)"
    using kings_remove_soldier [of idx "live s"] len nth soldier(3) by simp
  then show ?thesis using assms(3) by simp
qed

text \<open>
  C4. In a state whose live slots fit into the array. Sandwich rule: when the scan, at a
  direction \<open>d\<close>, finds a flanked King, it returns at once with the King-capture outcome,
  whatever the later directions hold; and whenever a call of \<^verbatim>\<open>check_linca_capture\<close>
  changes the Kings among the live pieces, the game is over and the one victory message
  added names the mover's colour, with the other side's King as reason. Flank rule: the same
  outcome whenever \<^verbatim>\<open>check_seltou_capture\<close> changes the Kings among the live pieces. No
  hypothesis bears on the remaining material.
\<close>

theorem king_capture_ends_match:
  assumes "array_ok s"
  shows "(d < 4 \<and> linca_hit s r c ally enemy d = Some idx \<and> type (pieces s ! idx) = CHR ''K'' \<longrightarrow>
            linca_scan s r c ally enemy d = capture_king idx s) \<and>
         (kings (live (check_linca_capture mi s)) \<noteq> kings (live s) \<longrightarrow>
            won_by (color (pieces s ! mi)) s (check_linca_capture mi s)) \<and>
         (\<forall>s'. check_seltou_capture mi old_row old_col s = Some s' \<and>
               kings (live s') \<noteq> kings (live s) \<longrightarrow>
               won_by (color (pieces s ! mi)) s s')"
  using assms linca_king_stops [of d s r c ally enemy idx] linca_king_outcome [of s mi]
    seltou_king_outcome [of s mi old_row old_col]
  by blast

theorem king_capture_ends_match_witness:
  "array_ok king_flanked \<and> (0::nat) < 4 \<and>
   linca_hit king_flanked 4 4 CHR ''B'' CHR ''R'' 0 = Some 1 \<and>
   type (pieces king_flanked ! 1) = CHR ''K'' \<and>
   linca_scan king_flanked 4 4 CHR ''B'' CHR ''R'' 0 = capture_king 1 king_flanked \<and>
   kings (live (check_linca_capture 0 king_flanked)) \<noteq> kings (live king_flanked) \<and>
   won_by (color (pieces king_flanked ! 0)) king_flanked (check_linca_capture 0 king_flanked) \<and>
   check_seltou_capture 0 3 4 king_in_front = Some (capture_king 1 king_in_front) \<and>
   kings (live (capture_king 1 king_in_front)) \<noteq> kings (live king_in_front) \<and>
   won_by (color (pieces king_in_front ! 0)) king_in_front (capture_king 1 king_in_front)"
proof -
  have a: "array_ok king_flanked" "array_ok king_in_front"
    by (simp_all add: array_ok_def king_flanked_def king_in_front_def reset_game_state_def)
  have hit: "linca_hit king_flanked 4 4 CHR ''B'' CHR ''R'' 0 = Some 1"
    by code_simp
  have k: "type (pieces king_flanked ! 1) = CHR ''K''"
    by (simp add: king_flanked_def reset_game_state_def mk_piece_def)
  have l: "kings (live (check_linca_capture 0 king_flanked)) \<noteq> kings (live king_flanked)"
    by code_simp
  have st: "check_seltou_capture 0 3 4 king_in_front = Some (capture_king 1 king_in_front)"
    by code_simp
  have sk: "kings (live (capture_king 1 king_in_front)) \<noteq> kings (live king_in_front)"
    by code_simp
  show ?thesis
    using king_capture_ends_match [OF a(1), where d = 0 and r = 4 and c = 4 and ally = "CHR ''B''"
        and enemy = "CHR ''R''" and idx = 1 and mi = 0]
      king_capture_ends_match [OF a(2), where mi = 0 and old_row = 3 and old_col = 4] a hit k l st sk
    by simp
qed

section \<open>The flank rule: malformed geometry and protection\<close>

text \<open>
  C9. For every state, index and origin, \<^verbatim>\<open>check_seltou_capture\<close> returns without an
  out-of-range write to \<^verbatim>\<open>cell_control\<close> (its result is never \<open>None\<close>). When the move is
  diagonal, or has length zero, or the enemy cell derived from it lies outside rows and
  columns 0 to 8, the call returns the state as it is: pieces, count, control, the
  game-over flag and everything else unchanged. Coordinates are arbitrary integers; the
  additions wrap as 32-bit integers do. The index of the moved piece is the caller's; the
  other reads of \<^verbatim>\<open>pieces\<close> use indices returned by \<^verbatim>\<open>find_piece_at\<close>, which are below
  \<^verbatim>\<open>piece_count\<close>.
\<close>

theorem seltou_malformed_noop:
  "check_seltou_capture mi old_row old_col s \<noteq> None \<and>
   ((row (pieces s ! mi) \<noteq> old_row \<and> col (pieces s ! mi) \<noteq> old_col) \<or>
    (row (pieces s ! mi) = old_row \<and> col (pieces s ! mi) = old_col) \<or>
    \<not> on_board (fst (enemy_cell mi old_row old_col s)) (snd (enemy_cell mi old_row old_col s))
    \<longrightarrow> check_seltou_capture mi old_row old_col s = Some s)"
proof
  show "check_seltou_capture mi old_row old_col s \<noteq> None"
    by (cases rule: seltou_cases [of mi old_row old_col s]) simp_all
  show "(row (pieces s ! mi) \<noteq> old_row \<and> col (pieces s ! mi) \<noteq> old_col) \<or>
    (row (pieces s ! mi) = old_row \<and> col (pieces s ! mi) = old_col) \<or>
    \<not> on_board (fst (enemy_cell mi old_row old_col s)) (snd (enemy_cell mi old_row old_col s))
    \<longrightarrow> check_seltou_capture mi old_row old_col s = Some s"
    by (auto simp: seltou_unfold Let_def straight_def cell_holds_def)
qed

theorem seltou_malformed_noop_witness:
  "\<not> on_board (fst (enemy_cell 0 0 4300000 far_away)) (snd (enemy_cell 0 0 4300000 far_away)) \<and>
   check_seltou_capture 0 0 4300000 far_away = Some far_away \<and>
   row (pieces one_in_front ! 0) \<noteq> 3 \<and> col (pieces one_in_front ! 0) \<noteq> 3 \<and>
   check_seltou_capture 0 3 3 one_in_front = Some one_in_front \<and>
   row (pieces one_in_front ! 0) = 4 \<and> col (pieces one_in_front ! 0) = 4 \<and>
   check_seltou_capture 0 4 4 one_in_front = Some one_in_front"
  using seltou_malformed_noop [of 0 0 4300000 far_away]
    seltou_malformed_noop [of 0 3 3 one_in_front] seltou_malformed_noop [of 0 4 4 one_in_front]
  by (simp add: far_away_def one_in_front_def reset_game_state_def mk_piece_def enemy_cell_def
      unit_step_def wrap32_def on_board_def)

lemma seltou_no_flank:
  "\<not> unprotected_flank mi old_row old_col s \<Longrightarrow> check_seltou_capture mi old_row old_col s = Some s"
  by (auto simp: unprotected_flank_def seltou_unfold Let_def)

lemma seltou_flank:
  assumes c: "unprotected_flank mi old_row old_col s"
  shows "\<exists>s' idx. check_seltou_capture mi old_row old_col s = Some s' \<and>
           find_piece_at s (fst (enemy_cell mi old_row old_col s))
                           (snd (enemy_cell mi old_row old_col s)) = Some idx \<and>
           color (pieces s ! idx) = enemy_of (color (pieces s ! mi)) \<and>
           piece_count s' + 1 = piece_count s \<and>
           (array_ok s \<longrightarrow> live s' = take idx (live s) @ drop (Suc idx) (live s))"
proof -
  let ?e = "enemy_of (color (pieces s ! mi))"
  let ?ec = "enemy_cell mi old_row old_col s"
  obtain idx where idx: "find_piece_at s (fst ?ec) (snd ?ec) = Some idx"
    and col: "color (pieces s ! idx) = ?e"
    and ob: "on_board (fst ?ec) (snd ?ec)"
    using c holds_SomeD [of s "fst ?ec" "snd ?ec" ?e]
    by (auto simp: unprotected_flank_def cell_holds_def)
  have lt: "idx < piece_count s" using idx by (rule find_piece_at_bound)
  have c': "straight mi old_row old_col s" "cell_holds s ?ec ?e"
    "\<not> cell_holds s (back_cell mi old_row old_col s) ?e"
    using c by (simp_all add: unprotected_flank_def)
  show ?thesis
  proof (cases "type (pieces s ! idx) = CHR ''K''")
    case True
    then have "check_seltou_capture mi old_row old_col s = Some (capture_king idx s)"
      using c' idx by (simp add: seltou_unfold Let_def)
    then show ?thesis using lt idx col live_capture_king [OF lt] by auto
  next
    case False
    obtain s' where s': "seltou_take idx (fst ?ec) (snd ?ec) s = Some s'"
      using seltou_take_total [OF ob, of idx s] by auto
    have "check_seltou_capture mi old_row old_col s = Some s'"
      using c' idx False s' by (simp add: seltou_unfold Let_def)
    then show ?thesis
      using lt idx col seltou_take_SomeD(2) [OF s'] seltou_take_SomeD(4) [OF s' lt] by auto
  qed
qed

lemma find_piece_at_cell:
  assumes "find_piece_at s r c = Some i"
  shows "row (pieces s ! i) = r \<and> col (pieces s ! i) = c"
proof -
  have "i < length (live s) \<and> row (live s ! i) = r \<and> col (live s ! i) = c"
    using assms find_piece_in_SomeD [of "live s" r c i] by (simp add: find_piece_at_def)
  moreover have "i < piece_count s" using assms by (rule find_piece_at_bound)
  ultimately show ?thesis by (simp add: live_def)
qed

text \<open>
  C1, as the code has it. The piece that protects a flanked enemy is one of the enemy's own
  colour. If the back cell lies on the board and holds a piece of the enemy colour, the call
  returns the state as it is. The count goes down by one exactly when the move is straight,
  the enemy cell lies on the board and holds a piece of the enemy colour, and the back cell
  is not a board cell holding a piece of the enemy colour; whenever that condition fails the
  call returns the state as it is. When it holds (and the live slots fit into the array)
  the piece removed is the enemy piece standing on the enemy cell, one unit step beyond the
  destination, and every other live piece stays, in its order: a piece of the mover's own
  colour on the back cell prevents nothing.
\<close>

theorem seltou_protection:
  "(cell_holds s (back_cell mi old_row old_col s) (enemy_of (color (pieces s ! mi))) \<longrightarrow>
      check_seltou_capture mi old_row old_col s = Some s) \<and>
   ((\<exists>s'. check_seltou_capture mi old_row old_col s = Some s' \<and>
          piece_count s' + 1 = piece_count s) \<longleftrightarrow>
    unprotected_flank mi old_row old_col s) \<and>
   (\<not> unprotected_flank mi old_row old_col s \<longrightarrow>
      check_seltou_capture mi old_row old_col s = Some s) \<and>
   (unprotected_flank mi old_row old_col s \<and> array_ok s \<longrightarrow>
      (\<exists>s'. check_seltou_capture mi old_row old_col s = Some s' \<and>
            flank_capture mi old_row old_col s s'))"
proof (intro conjI impI iffI)
  assume "cell_holds s (back_cell mi old_row old_col s) (enemy_of (color (pieces s ! mi)))"
  then have "\<not> unprotected_flank mi old_row old_col s" by (simp add: unprotected_flank_def)
  then show "check_seltou_capture mi old_row old_col s = Some s" by (rule seltou_no_flank)
next
  assume a: "\<exists>s'. check_seltou_capture mi old_row old_col s = Some s' \<and>
          piece_count s' + 1 = piece_count s"
  show "unprotected_flank mi old_row old_col s"
  proof (rule ccontr)
    assume "\<not> unprotected_flank mi old_row old_col s"
    then have "check_seltou_capture mi old_row old_col s = Some s" by (rule seltou_no_flank)
    with a show False by auto
  qed
next
  assume "unprotected_flank mi old_row old_col s"
  then show "\<exists>s'. check_seltou_capture mi old_row old_col s = Some s' \<and>
          piece_count s' + 1 = piece_count s"
    using seltou_flank [of mi old_row old_col s] by blast
next
  assume "\<not> unprotected_flank mi old_row old_col s"
  then show "check_seltou_capture mi old_row old_col s = Some s" by (rule seltou_no_flank)
next
  assume a: "unprotected_flank mi old_row old_col s \<and> array_ok s"
  then obtain s' idx where r: "check_seltou_capture mi old_row old_col s = Some s'"
      "find_piece_at s (fst (enemy_cell mi old_row old_col s))
                       (snd (enemy_cell mi old_row old_col s)) = Some idx"
      "color (pieces s ! idx) = enemy_of (color (pieces s ! mi))"
      "piece_count s' + 1 = piece_count s"
      "live s' = take idx (live s) @ drop (Suc idx) (live s)"
    using seltou_flank [of mi old_row old_col s] by blast
  have "idx < piece_count s" using r(2) by (rule find_piece_at_bound)
  then have "flank_capture mi old_row old_col s s'"
    unfolding flank_capture_def shifted_def using r find_piece_at_cell [OF r(2)] by blast
  then show "\<exists>s'. check_seltou_capture mi old_row old_col s = Some s' \<and>
            flank_capture mi old_row old_col s s'"
    using r(1) by blast
qed

theorem seltou_protection_witness:
  "cell_holds two_in_front (back_cell 0 3 4 two_in_front)
     (enemy_of (color (pieces two_in_front ! 0))) \<and>
   check_seltou_capture 0 3 4 two_in_front = Some two_in_front \<and>
   \<not> unprotected_flank 0 3 3 one_in_front \<and>
   check_seltou_capture 0 3 3 one_in_front = Some one_in_front \<and>
   unprotected_flank 0 3 4 one_in_front \<and> array_ok one_in_front \<and>
   (\<exists>s'. check_seltou_capture 0 3 4 one_in_front = Some s' \<and>
         flank_capture 0 3 4 one_in_front s' \<and>
         piece_count s' + 1 = piece_count one_in_front \<and>
         live s' = [mk_piece 4 4 CHR ''B'' CHR ''P'']) \<and>
   unprotected_flank 0 3 4 ally_behind \<and> array_ok ally_behind \<and>
   (\<exists>s'. check_seltou_capture 0 3 4 ally_behind = Some s' \<and>
         flank_capture 0 3 4 ally_behind s' \<and>
         live s' = [mk_piece 4 4 CHR ''B'' CHR ''P'', mk_piece 6 4 CHR ''B'' CHR ''P''])"
proof -
  have h: "cell_holds two_in_front (back_cell 0 3 4 two_in_front)
             (enemy_of (color (pieces two_in_front ! 0)))"
    "\<not> unprotected_flank 0 3 3 one_in_front"
    "unprotected_flank 0 3 4 one_in_front" "array_ok one_in_front"
    "unprotected_flank 0 3 4 ally_behind" "array_ok ally_behind"
    by code_simp+
  have f: "find_piece_at one_in_front (fst (enemy_cell 0 3 4 one_in_front))
             (snd (enemy_cell 0 3 4 one_in_front)) = Some 1"
    "find_piece_at ally_behind (fst (enemy_cell 0 3 4 ally_behind))
             (snd (enemy_cell 0 3 4 ally_behind)) = Some 1"
    "take 1 (live one_in_front) @ drop (Suc 1) (live one_in_front) =
       [mk_piece 4 4 CHR ''B'' CHR ''P'']"
    "take 1 (live ally_behind) @ drop (Suc 1) (live ally_behind) =
       [mk_piece 4 4 CHR ''B'' CHR ''P'', mk_piece 6 4 CHR ''B'' CHR ''P'']"
    by code_simp+
  note a = seltou_protection [of two_in_front 0 3 4]
  note b = seltou_protection [of one_in_front 0 3 3]
  note c = seltou_protection [of one_in_front 0 3 4]
  note d = seltou_protection [of ally_behind 0 3 4]
  obtain s1 where s1: "check_seltou_capture 0 3 4 one_in_front = Some s1"
      "flank_capture 0 3 4 one_in_front s1"
    using c h by blast
  obtain s2 where s2: "check_seltou_capture 0 3 4 ally_behind = Some s2"
      "flank_capture 0 3 4 ally_behind s2"
    using d h by blast
  have l1: "live s1 = [mk_piece 4 4 CHR ''B'' CHR ''P''] \<and>
            piece_count s1 + 1 = piece_count one_in_front"
    using s1(2) f(1,3) by (auto simp: flank_capture_def shifted_def)
  have l2: "live s2 = [mk_piece 4 4 CHR ''B'' CHR ''P'', mk_piece 6 4 CHR ''B'' CHR ''P'']"
    using s2(2) f(2,4) by (auto simp: flank_capture_def shifted_def)
  show ?thesis using a b h s1 s2 l1 l2 by simp
qed

text \<open>
  C1 as stated fails: the move from (3,4) to (4,4) is straight, the back cell (6,4) holds a
  piece of the mover's colour Blue, and the Red soldier on (5,4) is captured all the same.
\<close>

theorem seltou_protection_counterexample:
  "straight 0 3 4 ally_behind \<and> back_cell 0 3 4 ally_behind = (6, 4) \<and>
   cell_holds ally_behind (6, 4) CHR ''B'' \<and> color (pieces ally_behind ! 0) = CHR ''B'' \<and>
   map_option live (check_seltou_capture 0 3 4 ally_behind) =
     Some [mk_piece 4 4 CHR ''B'' CHR ''P'', mk_piece 6 4 CHR ''B'' CHR ''P'']"
  by code_simp

section \<open>Cell control follows the captured soldiers\<close>

lemma set_cell_nth:
  assumes "length cc = 9" and "\<forall>line \<in> set cc. length line = 9"
    and "on_board r c" and "on_board r' c'"
  shows "set_cell cc r c v ! nat r' ! nat c' = (if r' = r \<and> c' = c then v else cc ! nat r' ! nat c')"
proof -
  have b: "nat r < 9" "nat c < 9" "nat r' < 9" "nat c' < 9" "0 \<le> r" "0 \<le> c" "0 \<le> r'" "0 \<le> c'"
    using assms(3,4) by (auto simp: on_board_def)
  have len: "length (cc ! nat r) = 9" using assms(1,2) b(1) by simp
  show ?thesis
  proof (cases "r' = r")
    case True
    then show ?thesis using b len assms(1) by (auto simp: set_cell_def nth_list_update)
  next
    case False
    then have "nat r' \<noteq> nat r" using b by auto
    then show ?thesis using False by (simp add: set_cell_def)
  qed
qed

lemma set_cell_shape:
  assumes "length cc = 9" and "\<forall>line \<in> set cc. length line = 9"
  shows "length (set_cell cc r c v) = 9 \<and> (\<forall>line \<in> set (set_cell cc r c v). length line = 9)"
proof (cases "nat r < length cc")
  case True
  then have "length ((cc ! nat r)[nat c := v]) = 9" using assms(2) by simp
  moreover have "set (cc[nat r := (cc ! nat r)[nat c := v]]) \<subseteq>
                 insert ((cc ! nat r)[nat c := v]) (set cc)"
    by (rule set_update_subset_insert)
  ultimately show ?thesis using assms by (auto simp: set_cell_def)
next
  case False
  then have "set_cell cc r c v = cc" by (simp add: set_cell_def list_update_beyond)
  then show ?thesis using assms by simp
qed

lemma distinct_cells_remove:
  fixes xs :: "Piece list"
  assumes "distinct (map (\<lambda>p. (row p, col p)) xs)" and "i < length xs"
  shows "distinct (map (\<lambda>p. (row p, col p)) (take i xs @ drop (Suc i) xs))"
    and "set (take i xs @ drop (Suc i) xs) = set xs - {xs ! i}"
proof -
  let ?f = "\<lambda>p::Piece. (row p, col p)"
  have xs: "xs = take i xs @ xs ! i # drop (Suc i) xs"
    using assms(2) by (simp add: id_take_nth_drop [symmetric])
  have d: "distinct (map ?f (take i xs @ xs ! i # drop (Suc i) xs))"
    using assms(1) xs by simp
  then show "distinct (map ?f (take i xs @ drop (Suc i) xs))" by auto
  have "distinct (take i xs @ xs ! i # drop (Suc i) xs)"
    using d distinct_map by blast
  then have "xs ! i \<notin> set (take i xs @ drop (Suc i) xs)" by auto
  moreover have "set xs = insert (xs ! i) (set (take i xs @ drop (Suc i) xs))"
    by (subst xs) auto
  ultimately show "set (take i xs @ drop (Suc i) xs) = set xs - {xs ! i}" by auto
qed

lemma tracked_refl: "array_ok s \<Longrightarrow> board_ok s \<Longrightarrow> cells_distinct s \<Longrightarrow> tracked s s"
  by (simp add: tracked_def control_rule_def captured_soldier_def)

lemma tracked_soldier:
  assumes t: "tracked s t" and idx: "idx < piece_count t"
    and pos: "row (live t ! idx) = r1" "col (live t ! idx) = c1"
    and ty: "type (live t ! idx) \<noteq> CHR ''K''"
    and ok: "array_ok t2"
    and lv: "live t2 = take idx (live t) @ drop (Suc idx) (live t)"
    and cc: "cell_control t2 =
              (if on_board r1 c1 then set_cell (cell_control t) r1 c1 0 else cell_control t)"
  shows "tracked s t2"
proof -
  let ?x = "live t ! idx"
  have len: "idx < length (live t)" using idx t by (simp add: tracked_def array_ok_def live_def)
  have d: "distinct (map (\<lambda>p. (row p, col p)) (live t))"
    using t by (simp add: tracked_def cells_distinct_def)
  have d2: "cells_distinct t2" and set2: "set (live t2) = set (live t) - {?x}"
    using distinct_cells_remove [OF d len] lv by (simp_all add: cells_distinct_def)
  have shape: "length (cell_control t) = 9" "\<forall>line \<in> set (cell_control t). length line = 9"
    using t by (simp_all add: tracked_def board_ok_def)
  have b2: "board_ok t2"
    using set_cell_shape [OF shape, of r1 c1 0] shape cc by (simp add: board_ok_def)
  have xin: "?x \<in> set (live s)" using t len by (auto simp: tracked_def)
  have sub: "set (live t2) \<subseteq> set (live s)" using t set2 by (auto simp: tracked_def)
  have rule: "control_rule s t" using t by (simp add: tracked_def)
  have "control_at t2 r c = (if captured_soldier s t2 r c then 0 else control_at s r c)"
    if ob: "on_board r c" for r c
  proof (cases "r = r1 \<and> c = c1")
    case True
    then have "control_at t2 r c = 0"
      using ob cc set_cell_nth [OF shape, of r1 c1 r1 c1 0] by (simp add: control_at_def)
    moreover have "captured_soldier s t2 r c"
      using True xin set2 pos ty by (auto simp: captured_soldier_def)
    ultimately show ?thesis by simp
  next
    case False
    have "control_at t2 r c = control_at t r c"
    proof (cases "on_board r1 c1")
      case ob1: True
      then show ?thesis
        using ob cc False set_cell_nth [OF shape ob1 ob, of 0] by (auto simp: control_at_def)
    next
      case ob1: False
      then show ?thesis using cc by (simp add: control_at_def)
    qed
    moreover have "captured_soldier s t2 r c = captured_soldier s t r c"
      using False set2 pos by (auto simp: captured_soldier_def)
    ultimately show ?thesis using rule ob by (simp add: control_rule_def)
  qed
  then have "control_rule s t2" by (simp add: control_rule_def)
  then show ?thesis using ok b2 d2 sub by (simp add: tracked_def)
qed

lemma tracked_king:
  assumes t: "tracked s t" and idx: "idx < piece_count t"
    and ty: "type (live t ! idx) = CHR ''K''"
    and ok: "array_ok t2"
    and lv: "live t2 = take idx (live t) @ drop (Suc idx) (live t)"
    and cc: "cell_control t2 = cell_control t"
  shows "tracked s t2"
proof -
  let ?x = "live t ! idx"
  have len: "idx < length (live t)" using idx t by (simp add: tracked_def array_ok_def live_def)
  have d: "distinct (map (\<lambda>p. (row p, col p)) (live t))"
    using t by (simp add: tracked_def cells_distinct_def)
  have d2: "cells_distinct t2" and set2: "set (live t2) = set (live t) - {?x}"
    using distinct_cells_remove [OF d len] lv by (simp_all add: cells_distinct_def)
  have b2: "board_ok t2" using t cc by (simp add: tracked_def board_ok_def)
  have sub: "set (live t2) \<subseteq> set (live s)" using t set2 by (auto simp: tracked_def)
  have "captured_soldier s t2 r c = captured_soldier s t r c" for r c
    using set2 ty by (auto simp: captured_soldier_def)
  moreover have "control_at t2 r c = control_at t r c" for r c
    using cc by (simp add: control_at_def)
  ultimately have "control_rule s t2" using t by (simp add: tracked_def control_rule_def)
  then show ?thesis using ok b2 d2 sub by (simp add: tracked_def)
qed

lemma linca_tracked:
  assumes "array_ok s" "board_ok s" "cells_distinct s"
  shows "tracked s (check_linca_capture mi s)"
proof -
  let ?r = "row (pieces s ! mi)" and ?c = "col (pieces s ! mi)" and ?a = "color (pieces s ! mi)"
  have "tracked s (linca_scan s ?r ?c ?a (enemy_of ?a) 0)"
  proof (rule linca_scan_rule [where I = "tracked s"])
    show "tracked s s" using assms by (rule tracked_refl)
  next
    fix t d idx1
    assume t: "tracked s t" and hit: "linca_hit t ?r ?c ?a (enemy_of ?a) d = Some idx1"
    have ok: "array_ok t" using t by (simp add: tracked_def)
    note f = find_piece_at_SomeD [OF linca_hit_SomeD(1) [OF hit] ok]
    show "tracked s (capture_king idx1 t)" if "type (pieces t ! idx1) = CHR ''K''"
      using that f ok
      by (intro tracked_king [OF t f(1)])
         (simp_all add: live_capture_king array_ok_capture_king capture_king_outcome)
    show "tracked s (linca_take idx1 (wrap32 (?r + dr ! d)) (wrap32 (?c + dc ! d)) t)"
      if "type (pieces t ! idx1) \<noteq> CHR ''K''"
      using that f ok
      by (intro tracked_soldier [OF t f(1) f(4) f(5)])
         (simp_all add: live_linca_take array_ok_linca_take linca_take_outcome)
  qed simp_all
  then show ?thesis by (simp add: check_linca_capture_def Let_def)
qed

lemma array_ok_seltou_take:
  "seltou_take idx er ec s = Some s' \<Longrightarrow> array_ok s \<Longrightarrow> array_ok s'"
  by (auto simp: seltou_take_def Let_def array_ok_def remove_piece_def split: if_splits)

lemma seltou_tracked:
  assumes "array_ok s" "board_ok s" "cells_distinct s"
  shows "\<exists>s'. check_seltou_capture mi old_row old_col s = Some s' \<and> tracked s s'"
proof (cases rule: seltou_cases [of mi old_row old_col s])
  case same
  then show ?thesis using tracked_refl [OF assms] by simp
next
  case (king idx)
  note f = find_piece_at_SomeD [OF king(1) assms(1)]
  have "tracked s (capture_king idx s)"
    using king(3) f assms(1)
    by (intro tracked_king [OF tracked_refl [OF assms] f(1)])
       (simp_all add: live_capture_king array_ok_capture_king capture_king_outcome)
  then show ?thesis using king(4) by simp
next
  case (soldier idx s')
  note f = find_piece_at_SomeD [OF soldier(1) assms(1)]
  note g = seltou_take_SomeD [OF soldier(4)]
  have "tracked s s'"
    using soldier(3) f assms(1) g array_ok_seltou_take [OF soldier(4) assms(1)]
    by (intro tracked_soldier [OF tracked_refl [OF assms] f(1) f(4) f(5)]) simp_all
  then show ?thesis using soldier(5) by simp
qed

section \<open>The sandwich rule removes the flanked pieces\<close>



















lemma fixture_ok:
  "array_ok two_flanks" "board_ok two_flanks" "cells_distinct two_flanks"
  "array_ok two_flanks_controlled" "board_ok two_flanks_controlled"
  "cells_distinct two_flanks_controlled"
  "array_ok one_in_front" "board_ok one_in_front" "cells_distinct one_in_front"
  by code_simp+



text \<open>
  C2, as the code has it. In a position whose live slots fit into the array, on a 9 by 9
  board, with no two live pieces on one cell: after \<^verbatim>\<open>check_linca_capture\<close>, and after
  \<^verbatim>\<open>check_seltou_capture\<close> (which returns), the control of a board cell is 0 if a soldier
  that stood on it was removed by the call, and is what it was before otherwise. So a
  captured soldier's cell is cleared, no other cell changes, and the capture of a King
  leaves the whole grid as it was.
\<close>

theorem control_cleared_with_soldier:
  assumes "array_ok s" and "board_ok s" and "cells_distinct s"
  shows "control_rule s (check_linca_capture mi s) \<and>
         (\<exists>s'. check_seltou_capture mi old_row old_col s = Some s' \<and> control_rule s s')"
  using linca_tracked [OF assms, of mi] seltou_tracked [OF assms, of mi old_row old_col]
  by (auto simp: tracked_def)

theorem control_cleared_with_soldier_witness:
  "array_ok two_flanks_controlled \<and> board_ok two_flanks_controlled \<and>
   cells_distinct two_flanks_controlled \<and> on_board 4 5 \<and> on_board 0 0 \<and>
   captured_soldier two_flanks_controlled (check_linca_capture 0 two_flanks_controlled) 4 5 \<and>
   control_at two_flanks_controlled 4 5 = 2 \<and>
   control_at (check_linca_capture 0 two_flanks_controlled) 4 5 = 0 \<and>
   \<not> captured_soldier two_flanks_controlled (check_linca_capture 0 two_flanks_controlled) 0 0 \<and>
   control_at (check_linca_capture 0 two_flanks_controlled) 0 0 = 1 \<and>
   (\<exists>s'. check_seltou_capture 0 3 4 one_in_front = Some s' \<and> control_rule one_in_front s')"
proof -
  have c: "captured_soldier two_flanks_controlled
             (check_linca_capture 0 two_flanks_controlled) 4 5"
    "\<not> captured_soldier two_flanks_controlled (check_linca_capture 0 two_flanks_controlled) 0 0"
    "control_at two_flanks_controlled 4 5 = 2" "control_at two_flanks_controlled 0 0 = 1"
    "on_board 4 5" "on_board 0 0"
    by code_simp+
  show ?thesis
    using control_cleared_with_soldier [OF fixture_ok(4,5,6), of 0]
      control_cleared_with_soldier [OF fixture_ok(7,8,9), of 0 3 4] fixture_ok c
    by (simp add: control_rule_def)
qed

text \<open>
  C2 as stated fails for a King: the flanked Red King on (3,4) is removed and the control
  of (3,4) keeps its value 2.
\<close>

theorem control_cleared_counterexample:
  "live king_flanked_controlled ! 1 = mk_piece 3 4 CHR ''R'' CHR ''K'' \<and>
   mk_piece 3 4 CHR ''R'' CHR ''K'' \<notin> set (live (check_linca_capture 0 king_flanked_controlled)) \<and>
   control_at king_flanked_controlled 3 4 = 2 \<and>
   control_at (check_linca_capture 0 king_flanked_controlled) 3 4 = 2"
  by code_simp

section \<open>net.c: receiving and sending a token\<close>

lemma invalid_move_torn_down: "torn_down s (invalid_move s)"
  by (simp add: torn_down_def invalid_move_def Let_def set_victory_message_def)

text \<open>
  C6. A message whose length is not 4 leaves the state as it is. A message of length 4 that
  is accepted for no piece (no live piece on the origin cell, or a piece that is not of the
  colour to move, or a destination the legality checker refuses) has the torn-down outcome:
  game over, victory message for the local colour, socket shut down, closed and set to
  \<^verbatim>\<open>INVALID_SOCKET\<close>. A message of length 4 accepted for the piece \<open>i\<close> yields exactly
  \<^verbatim>\<open>move_piece\<close> of that piece to the destination. The legality checker and \<^verbatim>\<open>move_piece\<close>
  are arbitrary. Origin and destination are decoded as the code decodes them, bytes from
  0x80 on included.
\<close>

theorem invalid_peer_move_fatal:
  "(length msg \<noteq> 4 \<longrightarrow> gui_move_piece_callback can_move move_piece msg s = s) \<and>
   (length msg = 4 \<and> (\<forall>i. \<not> accepted can_move msg s i) \<longrightarrow>
      torn_down s (gui_move_piece_callback can_move move_piece msg s)) \<and>
   (\<forall>i. length msg = 4 \<and> accepted can_move msg s i \<longrightarrow>
      gui_move_piece_callback can_move move_piece msg s =
        move_piece s i (fst (destination msg)) (snd (destination msg)))"
proof -
  obtain fr fc tr tc where d: "decode msg = ((fr, fc), (tr, tc))"
    by (metis surj_pair)
  show ?thesis
  proof (cases "find_piece_at s fr fc")
    case None
    then show ?thesis
      using d invalid_move_torn_down [of s]
      by (simp add: gui_move_piece_callback_def accepted_def origin_def destination_def)
  next
    case (Some i)
    then show ?thesis
      using d invalid_move_torn_down [of s]
      by (simp add: gui_move_piece_callback_def accepted_def origin_def destination_def)
  qed
qed

theorem invalid_peer_move_fatal_witness:
  "length ''ABC'' \<noteq> 4 \<and>
   gui_move_piece_callback always_legal place ''ABC'' one_in_front = one_in_front \<and>
   length ''A1A2'' = 4 \<and> (\<forall>i. \<not> accepted always_legal ''A1A2'' one_in_front i) \<and>
   torn_down one_in_front (gui_move_piece_callback always_legal place ''A1A2'' one_in_front) \<and>
   (\<forall>i. \<not> accepted never_legal ''E5E6'' one_in_front i) \<and>
   torn_down one_in_front (gui_move_piece_callback never_legal place ''E5E6'' one_in_front) \<and>
   (\<forall>i. \<not> accepted always_legal ''E4E3'' one_in_front i) \<and>
   torn_down one_in_front (gui_move_piece_callback always_legal place ''E4E3'' one_in_front) \<and>
   accepted always_legal ''E5E6'' one_in_front 0 \<and>
   gui_move_piece_callback always_legal place ''E5E6'' one_in_front = place one_in_front 0 3 4 \<and>
   accepted always_legal [CHR ''E'', CHR ''5'', CHR 0xE9, CHR ''6''] one_in_front 0 \<and>
   gui_move_piece_callback always_legal place [CHR ''E'', CHR ''5'', CHR 0xE9, CHR ''6'']
     one_in_front = place one_in_front 0 3 168"
proof -
  have d: "decode ''A1A2'' = ((8, 0), (7, 0))" "decode ''E5E6'' = ((4, 4), (3, 4))"
    "decode ''E4E3'' = ((5, 4), (6, 4))"
    "decode [CHR ''E'', CHR ''5'', CHR 0xE9, CHR ''6''] = ((4, 4), (3, 168))"
    by code_simp+
  have f: "find_piece_at one_in_front 8 0 = None" "find_piece_at one_in_front 4 4 = Some 0"
    "find_piece_at one_in_front 5 4 = Some 1"
    "color (pieces one_in_front ! 0) = current_turn one_in_front"
    "color (pieces one_in_front ! 1) \<noteq> current_turn one_in_front"
    by code_simp+
  have n: "\<forall>i. \<not> accepted always_legal ''A1A2'' one_in_front i"
    "\<forall>i. \<not> accepted never_legal ''E5E6'' one_in_front i"
    "\<forall>i. \<not> accepted always_legal ''E4E3'' one_in_front i"
    "accepted always_legal ''E5E6'' one_in_front 0"
    "accepted always_legal [CHR ''E'', CHR ''5'', CHR 0xE9, CHR ''6''] one_in_front 0"
    using d f by (auto simp: accepted_def origin_def destination_def never_legal_def always_legal_def)
  show ?thesis
    using invalid_peer_move_fatal [of "''ABC''" always_legal place one_in_front]
      invalid_peer_move_fatal [of "''A1A2''" always_legal place one_in_front]
      invalid_peer_move_fatal [of "''E5E6''" never_legal place one_in_front]
      invalid_peer_move_fatal [of "''E4E3''" always_legal place one_in_front]
      invalid_peer_move_fatal [of "''E5E6''" always_legal place one_in_front]
      invalid_peer_move_fatal [of "[CHR ''E'', CHR ''5'', CHR 0xE9, CHR ''6'']" always_legal place
        one_in_front] n d
    by (simp add: destination_def)
qed

lemma send_loop_outcome:
  assumes "well_behaved send" and "length m = 4" and "tot \<le> 4"
  shows "\<exists>res e' new. send_loop send sock m tot e calls = (res, e', calls @ new) \<and>
           (res = 4 \<and> (\<forall>(buf, r) \<in> set new. 0 < r) \<and> flushed new = drop tot m \<or>
            res = -1 \<and> new \<noteq> [] \<and> snd (last new) \<le> 0)"
  using assms
proof (induction send sock m tot e calls rule: send_loop.induct)
  case (1 send sock move tot e calls)
  show ?case
  proof (cases "tot < 4")
    case False
    then have "tot = 4" using "1.prems" by simp
    then have "send_loop send sock move tot e calls = (4, e, calls @ [])"
      by (subst send_loop.simps) simp
    moreover have "flushed [] = drop tot move" using \<open>tot = 4\<close> "1.prems" by (simp add: flushed_def)
    ultimately show ?thesis by auto
  next
    case True
    let ?buf = "take (4 - tot) (drop tot move)"
    obtain r e1 where s: "send e sock ?buf = (r, e1)" by (cases "send e sock ?buf")
    have buf: "?buf = drop tot move" using "1.prems" by simp
    have rle: "r \<le> int (4 - tot)"
      using "1.prems"(1) s unfolding well_behaved_def
      by (metis buf fst_conv length_drop "1.prems"(2))
    show ?thesis
    proof (cases "r \<le> 0")
      case neg: True
      have "send_loop send sock move tot e calls = (-1, e1, calls @ [(?buf, r)])"
        using True s neg by (subst send_loop.simps) (simp add: Let_def)
      then show ?thesis using neg by auto
    next
      case pos: False
      have eq: "send_loop send sock move tot e calls =
                send_loop send sock move (tot + nat r) e1 (calls @ [(?buf, r)])"
        using True s pos by (subst send_loop.simps) (simp add: Let_def)
      have le: "tot + nat r \<le> 4" using rle pos True by simp
      obtain res e' new where
        ih: "send_loop send sock move (tot + nat r) e1 (calls @ [(?buf, r)]) =
               (res, e', (calls @ [(?buf, r)]) @ new)"
          "res = 4 \<and> (\<forall>(buf, r) \<in> set new. 0 < r) \<and> flushed new = drop (tot + nat r) move \<or>
           res = -1 \<and> new \<noteq> [] \<and> snd (last new) \<le> 0"
        using "1.IH" [OF True refl s [symmetric] pos "1.prems"(1,2) le] by blast
      have fl: "flushed ((?buf, r) # new) = take (nat r) (drop tot move) @ flushed new"
        by (simp add: flushed_def buf)
      have "take (nat r) (drop tot move) @ drop (tot + nat r) move = drop tot move"
        by (metis add.commute append_take_drop_id drop_drop)
      then have "res = 4 \<and> (\<forall>(buf, r) \<in> set ((?buf, r) # new). 0 < r) \<and>
                   flushed ((?buf, r) # new) = drop tot move \<or>
                 res = -1 \<and> (?buf, r) # new \<noteq> [] \<and> snd (last ((?buf, r) # new)) \<le> 0"
        using ih(2) pos fl by auto
      moreover have "send_loop send sock move tot e calls = (res, e', calls @ ((?buf, r) # new))"
        using eq ih(1) by simp
      ultimately show ?thesis by blast
    qed
  qed
qed

text \<open>
  C8. With a \<^verbatim>\<open>NULL\<close> move or a string whose length is not 4 the result is -1, no call of
  \<^verbatim>\<open>send\<close> is made and the link is untouched. With a string of length 4 and a well-behaved
  sender the function returns (the loop is total) and either the result is 4, every call
  made progress and the bytes flushed are exactly the four bytes of the move, or the result
  is -1 and the last call of \<^verbatim>\<open>send\<close> gave a result that is not positive.
\<close>

theorem send_discipline:
  "(move = None \<or> (\<exists>m. move = Some m \<and> length m \<noteq> 4) \<longrightarrow>
      TCP_Send_Message send sock move e = (-1, e, [])) \<and>
   (\<forall>m. move = Some m \<and> length m = 4 \<and> well_behaved send \<longrightarrow>
      (\<exists>res e' calls. TCP_Send_Message send sock move e = (res, e', calls) \<and>
         (res = 4 \<and> (\<forall>(buf, r) \<in> set calls. 0 < r) \<and> flushed calls = m \<or>
          res = -1 \<and> calls \<noteq> [] \<and> snd (last calls) \<le> 0)))"
proof (intro conjI impI allI)
  assume "move = None \<or> (\<exists>m. move = Some m \<and> length m \<noteq> 4)"
  then show "TCP_Send_Message send sock move e = (-1, e, [])"
    by (auto simp: TCP_Send_Message_def)
next
  fix m assume a: "move = Some m \<and> length m = 4 \<and> well_behaved send"
  then have "TCP_Send_Message send sock move e = send_loop send sock m 0 e []"
    by (simp add: TCP_Send_Message_def)
  then show "\<exists>res e' calls. TCP_Send_Message send sock move e = (res, e', calls) \<and>
         (res = 4 \<and> (\<forall>(buf, r) \<in> set calls. 0 < r) \<and> flushed calls = m \<or>
          res = -1 \<and> calls \<noteq> [] \<and> snd (last calls) \<le> 0)"
    using send_loop_outcome [of send m 0 sock e "[]"] a by auto
qed

theorem send_discipline_witness:
  "TCP_Send_Message chunk3 5 None 0 = (-1, 0, []) \<and>
   TCP_Send_Message chunk3 5 (Some ''ABC'') 0 = (-1, 0, []) \<and>
   well_behaved chunk3 \<and> length ''A1A2'' = 4 \<and>
   TCP_Send_Message chunk3 5 (Some ''A1A2'') 0 = (4, 2, [(''A1A2'', 3), (''2'', 1)]) \<and>
   flushed [(''A1A2'', 3), (''2'', 1)] = ''A1A2'' \<and>
   well_behaved broken \<and>
   TCP_Send_Message broken 5 (Some ''A1A2'') 0 = (-1, 2, [(''A1A2'', 2), (''A2'', -1)])"
proof -
  have w: "well_behaved chunk3" "well_behaved broken"
    by (simp_all add: well_behaved_def chunk3_def broken_def)
  have e: "TCP_Send_Message chunk3 5 (Some ''A1A2'') 0 = (4, 2, [(''A1A2'', 3), (''2'', 1)])"
    "TCP_Send_Message broken 5 (Some ''A1A2'') 0 = (-1, 2, [(''A1A2'', 2), (''A2'', -1)])"
    by code_simp+
  show ?thesis
    using send_discipline [of None chunk3 5 0] send_discipline [of "Some ''ABC''" chunk3 5 0]
      send_discipline [of "Some ''A1A2''" chunk3 5 0] send_discipline [of "Some ''A1A2''" broken 5 0]
      w e
    by (simp add: flushed_def)
qed

end
